theory Spec2Isabelle
  imports Main "HOL-Library.Word" "HOL-Library.Sublist" "HOL-Library.AList"
begin

unbundle bit_operations_syntax

section \<open>Git-Backup-Enc: the encrypted-tree transform\<close>

text \<open>
  The development follows \<^verbatim>\<open>backup.py\<close> and \<^verbatim>\<open>restore.py\<close>.
  Python \<^verbatim>\<open>bytes\<close> are lists of 8-bit words; a Python \<^verbatim>\<open>str\<close> is the
  list of its code points. Every exception the scripts can raise on the paths modelled
  here is a value of the type \<open>error\<close>, named after the exception class and, where
  one class carries several messages, after the message.
\<close>

subsection \<open>Data\<close>

type_synonym byte = "8 word"
type_synonym bytes = "byte list"
type_synonym pystr = "nat list"

datatype error =
    InvalidIVSize nat        \<comment> \<open>ValueError: Invalid IV size (n) for CBC.\<close>
  | NotBlockMultiple         \<comment> \<open>ValueError: The length of the provided data is not a multiple of the block length.\<close>
  | InvalidPaddingBytes      \<comment> \<open>ValueError: Invalid padding bytes.\<close>
  | UnicodeEncodeError
  | UnicodeDecodeError
  | BinasciiError
  | JSONDecodeError
  | FileNotFoundError
  | NotADirectoryError
  | IsADirectoryError
  | FileExistsError
  | SystemExit nat

text \<open>
  The class of the Python exception that an error stands for. The three failures of the
  cipher library are all of the class \<^verbatim>\<open>ValueError\<close>; they differ in their message.
\<close>

fun exception_class :: "error \<Rightarrow> string" where
  "exception_class (InvalidIVSize n) = ''ValueError''"
| "exception_class NotBlockMultiple = ''ValueError''"
| "exception_class InvalidPaddingBytes = ''ValueError''"
| "exception_class UnicodeEncodeError = ''UnicodeEncodeError''"
| "exception_class UnicodeDecodeError = ''UnicodeDecodeError''"
| "exception_class BinasciiError = ''binascii.Error''"
| "exception_class JSONDecodeError = ''json.JSONDecodeError''"
| "exception_class FileNotFoundError = ''FileNotFoundError''"
| "exception_class NotADirectoryError = ''NotADirectoryError''"
| "exception_class IsADirectoryError = ''IsADirectoryError''"
| "exception_class FileExistsError = ''FileExistsError''"
| "exception_class (SystemExit n) = ''SystemExit''"

text \<open>
  The block cipher is the library's AES under a 256-bit key. It enters the model as a pair
  of functions from a key and a block to a block; what the scripts rely on is stated by
  \<open>block_cipher_ok\<close>: on 16-byte blocks both directions keep the length and
  decryption undoes encryption under the same key.
\<close>

record block_cipher =
  encrypt_block :: "bytes \<Rightarrow> bytes \<Rightarrow> bytes"
  decrypt_block :: "bytes \<Rightarrow> bytes \<Rightarrow> bytes"

definition block_cipher_ok :: "block_cipher \<Rightarrow> bytes \<Rightarrow> bool" where
  "block_cipher_ok aes key \<longleftrightarrow>
     (\<forall>b. length b = 16 \<longrightarrow>
        length (encrypt_block aes key b) = 16 \<and>
        length (decrypt_block aes key b) = 16 \<and>
        decrypt_block aes key (encrypt_block aes key b) = b)"

text \<open>
  \<^verbatim>\<open>os.urandom\<close> draws from the operating system. The source of random bytes is an
  explicit stream; a call takes its first \<open>n\<close> bytes and leaves the rest.
\<close>

type_synonym entropy = "nat \<Rightarrow> byte"

definition urandom :: "nat \<Rightarrow> entropy \<Rightarrow> bytes \<times> entropy" where
  "urandom n src = (map src [0..<n], \<lambda>i. src (i + n))"

subsection \<open>Padding and the CBC mode\<close>

definition pkcs7_pad :: "bytes \<Rightarrow> bytes" where
  "pkcs7_pad data =
     (let n = 16 - length data mod 16 in data @ replicate n (of_nat n))"

definition pkcs7_unpad :: "bytes \<Rightarrow> error + bytes" where
  "pkcs7_unpad padded =
     (if padded = [] \<or> length padded mod 16 \<noteq> 0 then Inl InvalidPaddingBytes
      else
        let pad_size = unat (last padded) in
        if pad_size = 0 \<or> pad_size > 16 then Inl InvalidPaddingBytes
        else if \<exists>b \<in> set (drop (length padded - pad_size) padded). b \<noteq> last padded
        then Inl InvalidPaddingBytes
        else Inr (take (length padded - pad_size) padded))"

definition xor_bytes :: "bytes \<Rightarrow> bytes \<Rightarrow> bytes" where
  "xor_bytes a b = map2 (XOR) a b"

function blocks :: "bytes \<Rightarrow> bytes list" where
  "blocks xs = (if length xs < 16 then [] else take 16 xs # blocks (drop 16 xs))"
  by pat_completeness auto
termination
  by (relation "measure length") auto

declare blocks.simps [simp del]

definition leftover :: "bytes \<Rightarrow> bytes" where
  "leftover xs = drop (16 * (length xs div 16)) xs"

fun cbc_encrypt_blocks :: "block_cipher \<Rightarrow> bytes \<Rightarrow> bytes \<Rightarrow> bytes list \<Rightarrow> bytes" where
  "cbc_encrypt_blocks aes key prev [] = []"
| "cbc_encrypt_blocks aes key prev (p # ps) =
     (let c = encrypt_block aes key (xor_bytes prev p)
      in c @ cbc_encrypt_blocks aes key c ps)"

fun cbc_decrypt_blocks :: "block_cipher \<Rightarrow> bytes \<Rightarrow> bytes \<Rightarrow> bytes list \<Rightarrow> bytes" where
  "cbc_decrypt_blocks aes key prev [] = []"
| "cbc_decrypt_blocks aes key prev (c # cs) =
     xor_bytes prev (decrypt_block aes key c) @ cbc_decrypt_blocks aes key c cs"

text \<open>
  \<^verbatim>\<open>Cipher(algorithms.AES(key), modes.CBC(iv))\<close> refuses an IV that is not one block
  long; \<^verbatim>\<open>update(data) + finalize()\<close> processes the whole blocks and raises when bytes
  are left over.
\<close>

definition cbc_encrypt :: "block_cipher \<Rightarrow> bytes \<Rightarrow> bytes \<Rightarrow> bytes \<Rightarrow> error + bytes" where
  "cbc_encrypt aes key iv data =
     (if length iv \<noteq> 16 then Inl (InvalidIVSize (length iv))
      else if leftover data \<noteq> [] then Inl NotBlockMultiple
      else Inr (cbc_encrypt_blocks aes key iv (blocks data)))"

definition cbc_decrypt :: "block_cipher \<Rightarrow> bytes \<Rightarrow> bytes \<Rightarrow> bytes \<Rightarrow> error + bytes" where
  "cbc_decrypt aes key iv data =
     (if length iv \<noteq> 16 then Inl (InvalidIVSize (length iv))
      else if leftover data \<noteq> [] then Inl NotBlockMultiple
      else Inr (cbc_decrypt_blocks aes key iv (blocks data)))"

subsection \<open>\<^verbatim>\<open>encrypt_data\<close> and \<^verbatim>\<open>decrypt_data\<close>\<close>

definition encrypt_data :: "block_cipher \<Rightarrow> bytes \<Rightarrow> bytes \<Rightarrow> entropy \<Rightarrow> (error + bytes) \<times> entropy" where
  "encrypt_data aes key data src =
     (let (iv, src') = urandom 16 src;
          padded_data = pkcs7_pad data
      in (case cbc_encrypt aes key iv padded_data of
            Inl e \<Rightarrow> Inl e
          | Inr encrypted \<Rightarrow> Inr (iv @ encrypted), src'))"

definition decrypt_data :: "block_cipher \<Rightarrow> bytes \<Rightarrow> bytes \<Rightarrow> error + bytes" where
  "decrypt_data aes key encrypted_data =
     (let iv = take 16 encrypted_data;
          encrypted = drop 16 encrypted_data
      in case cbc_decrypt aes key iv encrypted of
           Inl e \<Rightarrow> Inl e
         | Inr padded_data \<Rightarrow> pkcs7_unpad padded_data)"

definition utf8_encode_char :: "nat \<Rightarrow> error + bytes" where
  "utf8_encode_char c =
     (if c < 0x80 then Inr [of_nat c]
      else if c < 0x800 then Inr [of_nat (0xC0 + c div 64), of_nat (0x80 + c mod 64)]
      else if 0xD800 \<le> c \<and> c \<le> 0xDFFF then Inl UnicodeEncodeError
      else if c < 0x10000 then
        Inr [of_nat (0xE0 + c div 4096), of_nat (0x80 + c div 64 mod 64), of_nat (0x80 + c mod 64)]
      else if c < 0x110000 then
        Inr [of_nat (0xF0 + c div 262144), of_nat (0x80 + c div 4096 mod 64),
             of_nat (0x80 + c div 64 mod 64), of_nat (0x80 + c mod 64)]
      else Inl UnicodeEncodeError)"

fun utf8_encode :: "pystr \<Rightarrow> error + bytes" where
  "utf8_encode [] = Inr []"
| "utf8_encode (c # cs) =
     (case utf8_encode_char c of
        Inl e \<Rightarrow> Inl e
      | Inr bs \<Rightarrow> (case utf8_encode cs of Inl e \<Rightarrow> Inl e | Inr rest \<Rightarrow> Inr (bs @ rest)))"

definition continuation :: "byte \<Rightarrow> bool" where
  "continuation b \<longleftrightarrow> 0x80 \<le> unat b \<and> unat b < 0xC0"

fun utf8_decode :: "bytes \<Rightarrow> error + pystr" where
  "utf8_decode [] = Inr []"
| "utf8_decode (b0 # bs) =
     (if unat b0 < 0x80 then
        (case utf8_decode bs of Inl e \<Rightarrow> Inl e | Inr cs \<Rightarrow> Inr (unat b0 # cs))
      else if 0xC2 \<le> unat b0 \<and> unat b0 < 0xE0 then
        (case bs of
           b1 # rest \<Rightarrow>
             if continuation b1 then
               (case utf8_decode rest of
                  Inl e \<Rightarrow> Inl e
                | Inr cs \<Rightarrow> Inr (((unat b0 - 0xC0) * 64 + (unat b1 - 0x80)) # cs))
             else Inl UnicodeDecodeError
         | _ \<Rightarrow> Inl UnicodeDecodeError)
      else if 0xE0 \<le> unat b0 \<and> unat b0 < 0xF0 then
        (case bs of
           b1 # b2 # rest \<Rightarrow>
             (let c = (unat b0 - 0xE0) * 4096 + (unat b1 - 0x80) * 64 + (unat b2 - 0x80) in
              if continuation b1 \<and> continuation b2 \<and> 0x800 \<le> c \<and> \<not> (0xD800 \<le> c \<and> c \<le> 0xDFFF) then
                (case utf8_decode rest of Inl e \<Rightarrow> Inl e | Inr cs \<Rightarrow> Inr (c # cs))
              else Inl UnicodeDecodeError)
         | _ \<Rightarrow> Inl UnicodeDecodeError)
      else if 0xF0 \<le> unat b0 \<and> unat b0 < 0xF5 then
        (case bs of
           b1 # b2 # b3 # rest \<Rightarrow>
             (let c = (unat b0 - 0xF0) * 262144 + (unat b1 - 0x80) * 4096
                      + (unat b2 - 0x80) * 64 + (unat b3 - 0x80) in
              if continuation b1 \<and> continuation b2 \<and> continuation b3 \<and> 0x10000 \<le> c \<and> c < 0x110000 then
                (case utf8_decode rest of Inl e \<Rightarrow> Inl e | Inr cs \<Rightarrow> Inr (c # cs))
              else Inl UnicodeDecodeError)
         | _ \<Rightarrow> Inl UnicodeDecodeError)
      else Inl UnicodeDecodeError)"

definition encodable :: "pystr \<Rightarrow> bool" where
  "encodable s \<longleftrightarrow> (\<forall>c \<in> set s. c < 0x110000 \<and> \<not> (0xD800 \<le> c \<and> c \<le> 0xDFFF))"

definition table_b2a_base64 :: "nat \<Rightarrow> byte" where
  "table_b2a_base64 i =
     of_nat (if i < 26 then 65 + i else if i < 52 then 71 + i
             else if i < 62 then i - 4 else if i = 62 then 43 else 47)"

fun b64encode :: "bytes \<Rightarrow> bytes" where
  "b64encode (a # b # c # rest) =
     [table_b2a_base64 (unat a div 4),
      table_b2a_base64 (unat a mod 4 * 16 + unat b div 16),
      table_b2a_base64 (unat b mod 16 * 4 + unat c div 64),
      table_b2a_base64 (unat c mod 64)] @ b64encode rest"
| "b64encode [a, b] =
     [table_b2a_base64 (unat a div 4),
      table_b2a_base64 (unat a mod 4 * 16 + unat b div 16),
      table_b2a_base64 (unat b mod 16 * 4), 61]"
| "b64encode [a] =
     [table_b2a_base64 (unat a div 4), table_b2a_base64 (unat a mod 4 * 16), 61, 61]"
| "b64encode [] = []"

definition urlsafe_encode_translation :: "byte \<Rightarrow> byte" where
  "urlsafe_encode_translation c = (if c = 43 then 45 else if c = 47 then 95 else c)"

definition urlsafe_decode_translation :: "byte \<Rightarrow> byte" where
  "urlsafe_decode_translation c = (if c = 45 then 43 else if c = 95 then 47 else c)"

definition urlsafe_b64encode :: "bytes \<Rightarrow> bytes" where
  "urlsafe_b64encode s = map urlsafe_encode_translation (b64encode s)"

definition table_a2b_base64 :: "byte \<Rightarrow> nat option" where
  "table_a2b_base64 c =
     (let n = unat c in
      if 65 \<le> n \<and> n \<le> 90 then Some (n - 65)
      else if 97 \<le> n \<and> n \<le> 122 then Some (n - 71)
      else if 48 \<le> n \<and> n \<le> 57 then Some (n + 4)
      else if n = 43 then Some 62
      else if n = 47 then Some 63
      else None)"

fun a2b_base64 :: "bytes \<Rightarrow> nat \<Rightarrow> nat \<Rightarrow> nat \<Rightarrow> bytes \<Rightarrow> error + bytes" where
  "a2b_base64 [] quad_pos pads leftchar bin_data =
     (if quad_pos \<noteq> 0 then Inl BinasciiError else Inr bin_data)"
| "a2b_base64 (this_ch # ascii_data) quad_pos pads leftchar bin_data =
     (if this_ch = 61 then
        (if quad_pos \<ge> 2 \<and> quad_pos + (pads + 1) \<ge> 4 then Inr bin_data
         else a2b_base64 ascii_data quad_pos (if quad_pos \<ge> 2 then pads + 1 else pads)
                leftchar bin_data)
      else
        (case table_a2b_base64 this_ch of
           None \<Rightarrow> a2b_base64 ascii_data quad_pos pads leftchar bin_data
         | Some v \<Rightarrow>
             if quad_pos = 0 then a2b_base64 ascii_data 1 0 v bin_data
             else if quad_pos = 1 then
               a2b_base64 ascii_data 2 0 (v mod 16) (bin_data @ [of_nat (leftchar * 4 + v div 16)])
             else if quad_pos = 2 then
               a2b_base64 ascii_data 3 0 (v mod 4) (bin_data @ [of_nat (leftchar * 16 + v div 4)])
             else
               a2b_base64 ascii_data 0 0 0 (bin_data @ [of_nat (leftchar * 64 + v)])))"

definition urlsafe_b64decode :: "bytes \<Rightarrow> error + bytes" where
  "urlsafe_b64decode s = a2b_base64 (map urlsafe_decode_translation s) 0 0 0 []"

definition ascii_decode :: "bytes \<Rightarrow> error + pystr" where
  "ascii_decode bs = (if \<exists>b \<in> set bs. unat b \<ge> 128 then Inl UnicodeDecodeError else Inr (map unat bs))"

definition ascii_encode :: "pystr \<Rightarrow> error + bytes" where
  "ascii_encode s = (if \<exists>c \<in> set s. c \<ge> 128 then Inl UnicodeEncodeError else Inr (map of_nat s))"

definition rstrip :: "pystr \<Rightarrow> nat \<Rightarrow> pystr" where
  "rstrip s ch = rev (dropWhile (\<lambda>c. c = ch) (rev s))"


text \<open>
  The character that \<^verbatim>\<open>urlsafe_b64encode\<close> writes for a six-bit value, and the
  alphabet of these characters: letters, digits, \<^verbatim>\<open>-\<close> and \<^verbatim>\<open>_\<close>.
\<close>

definition uc :: "nat \<Rightarrow> byte" where
  "uc i = urlsafe_encode_translation (table_b2a_base64 i)"

definition urlsafe_char :: "nat \<Rightarrow> bool" where
  "urlsafe_char c \<longleftrightarrow>
     (65 \<le> c \<and> c \<le> 90) \<or> (97 \<le> c \<and> c \<le> 122) \<or> (48 \<le> c \<and> c \<le> 57) \<or> c = 45 \<or> c = 95"


subsection \<open>The two classes\<close>

text \<open>
  \<^verbatim>\<open>PBKDF2HMAC(algorithm, length, salt, iterations).derive(key_material)\<close> is the
  library's key derivation. It enters the model as a function of exactly these five
  arguments, so that the two constructors show which arguments they pass.
  \<open>kdf_length_ok\<close> states the one property of it that is used: the derived key has the
  requested length.
\<close>

datatype hash_algorithm = SHA256

type_synonym kdf = "hash_algorithm \<Rightarrow> nat \<Rightarrow> bytes \<Rightarrow> nat \<Rightarrow> bytes \<Rightarrow> bytes"

definition kdf_length_ok :: "kdf \<Rightarrow> bool" where
  "kdf_length_ok PBKDF2HMAC \<longleftrightarrow>
     (\<forall>algorithm n salt iterations key_material.
        length (PBKDF2HMAC algorithm n salt iterations key_material) = n)"

definition bytes_literal :: "string \<Rightarrow> bytes" where
  "bytes_literal s = map (\<lambda>c. of_nat (of_char c)) s"

definition str_literal :: "string \<Rightarrow> pystr" where
  "str_literal s = map of_char s"

text \<open>
  An object of either class holds the derived key and the handle of the library backend;
  it is represented by its key. \<^verbatim>\<open>password.encode()\<close> is the UTF-8 encoding.
\<close>

definition BackupEncryptor :: "kdf \<Rightarrow> pystr \<Rightarrow> error + bytes" where
  "BackupEncryptor PBKDF2HMAC password =
     (let salt = bytes_literal ''Git-Backup-Enc-Salt-v1'' in
      case utf8_encode password of
        Inl e \<Rightarrow> Inl e
      | Inr key_material \<Rightarrow> Inr (PBKDF2HMAC SHA256 32 salt 100000 key_material))"

definition BackupDecryptor :: "kdf \<Rightarrow> pystr \<Rightarrow> error + bytes" where
  "BackupDecryptor PBKDF2HMAC password =
     (let salt = bytes_literal ''Git-Backup-Enc-Salt-v1'' in
      case utf8_encode password of
        Inl e \<Rightarrow> Inl e
      | Inr key_material \<Rightarrow> Inr (PBKDF2HMAC SHA256 32 salt 100000 key_material))"


subsection \<open>\<^verbatim>\<open>encrypt_filename\<close> and \<^verbatim>\<open>decrypt_filename\<close>\<close>

definition encrypt_filename :: "block_cipher \<Rightarrow> bytes \<Rightarrow> pystr \<Rightarrow> entropy \<Rightarrow> (error + pystr) \<times> entropy" where
  "encrypt_filename aes key filename src =
     (case utf8_encode filename of
        Inl e \<Rightarrow> (Inl e, src)
      | Inr data \<Rightarrow>
          (case encrypt_data aes key data src of
             (Inl e, src') \<Rightarrow> (Inl e, src')
           | (Inr encrypted, src') \<Rightarrow>
               (case ascii_decode (urlsafe_b64encode encrypted) of
                  Inl e \<Rightarrow> (Inl e, src')
                | Inr s \<Rightarrow> (Inr (rstrip s 61), src'))))"

definition decrypt_filename :: "block_cipher \<Rightarrow> bytes \<Rightarrow> pystr \<Rightarrow> error + pystr" where
  "decrypt_filename aes key encrypted_filename =
     (let padding_needed = (4 - length encrypted_filename mod 4) mod 4;
          encrypted_filename' = encrypted_filename @ replicate padding_needed 61
      in case ascii_encode encrypted_filename' of
           Inl e \<Rightarrow> Inl e
         | Inr s \<Rightarrow>
             (case urlsafe_b64decode s of
                Inl e \<Rightarrow> Inl e
              | Inr encrypted_data \<Rightarrow>
                  (case decrypt_data aes key encrypted_data of
                     Inl e \<Rightarrow> Inl e
                   | Inr decrypted \<Rightarrow> utf8_decode decrypted)))"

text \<open>
  A stand-in cipher and key derivation for evaluating the definitions on concrete inputs:
  the cipher adds the key length to every byte of a block, the key derivation cuts the
  requested number of bytes from the key material followed by the salt and zeros.
\<close>

definition shift_cipher :: block_cipher where
  "shift_cipher =
     \<lparr>encrypt_block = (\<lambda>key b. map (\<lambda>x. x + of_nat (length key)) b),
      decrypt_block = (\<lambda>key b. map (\<lambda>x. x - of_nat (length key)) b)\<rparr>"

definition take_kdf :: kdf where
  "take_kdf algorithm n salt iterations key_material =
     take n (key_material @ salt @ replicate n 0)"

definition count_entropy :: entropy where
  "count_entropy i = of_nat i"


subsection \<open>Directory trees\<close>

text \<open>
  A directory tree maps the paths below its root, written as lists of components, to what
  is there. The trees of the source directory, the backup directory and the restore
  directory are kept apart; the root directories themselves are taken to exist. Links,
  permissions and the limits of a file system on name lengths are not described.
\<close>

type_synonym path = "pystr list"

datatype node = File bytes | Dir

type_synonym tree = "path \<Rightarrow> node option"

definition read_file :: "tree \<Rightarrow> path \<Rightarrow> error + bytes" where
  "read_file t p =
     (if p = [] then Inl IsADirectoryError
      else case t p of
             None \<Rightarrow> Inl FileNotFoundError
           | Some Dir \<Rightarrow> Inl IsADirectoryError
           | Some (File data) \<Rightarrow> Inr data)"

definition write_file :: "tree \<Rightarrow> path \<Rightarrow> bytes \<Rightarrow> error + tree" where
  "write_file t p data =
     (if p = [] \<or> t p = Some Dir then Inl IsADirectoryError
      else if butlast p \<noteq> [] \<and> t (butlast p) \<noteq> Some Dir then
        Inl (if t (butlast p) = None then FileNotFoundError else NotADirectoryError)
      else Inr (t(p \<mapsto> File data)))"

text \<open>
  Creating a directory with its parents, where existing directories are accepted: the
  missing directories are made from the root downwards, and the call raises when a
  component exists as a file.
\<close>

fun mkdirs :: "tree \<Rightarrow> path \<Rightarrow> path \<Rightarrow> error option \<times> tree" where
  "mkdirs t parent [] = (None, t)"
| "mkdirs t parent (name # names) =
     (case t (parent @ [name]) of
        Some (File data) \<Rightarrow>
          (Some (if names = [] then FileExistsError else NotADirectoryError), t)
      | _ \<Rightarrow> mkdirs (t(parent @ [name] \<mapsto> Dir)) (parent @ [name]) names)"

text \<open>\<^verbatim>\<open>str(path)\<close> joins the components with a slash.\<close>

fun path_str :: "path \<Rightarrow> pystr" where
  "path_str [] = [46]"
| "path_str [name] = name"
| "path_str (name # names) = name @ [47] @ path_str names"

subsection \<open>\<^verbatim>\<open>backup\<close>\<close>

definition encrypt_file ::
  "block_cipher \<Rightarrow> bytes \<Rightarrow> tree \<Rightarrow> path \<Rightarrow> tree \<Rightarrow> path \<Rightarrow> entropy \<Rightarrow> (error + tree) \<times> entropy" where
  "encrypt_file aes key source input_path mirror output_path src =
     (case read_file source input_path of
        Inl e \<Rightarrow> (Inl e, src)
      | Inr data \<Rightarrow>
          (case encrypt_data aes key data src of
             (Inl e, src') \<Rightarrow> (Inl e, src')
           | (Inr encrypted, src') \<Rightarrow> (write_file mirror output_path encrypted, src')))"

text \<open>The list comprehension over the components of a relative path.\<close>

fun encrypted_parts :: "block_cipher \<Rightarrow> bytes \<Rightarrow> path \<Rightarrow> entropy \<Rightarrow> (error + path) \<times> entropy" where
  "encrypted_parts aes key [] src = (Inr [], src)"
| "encrypted_parts aes key (part # parts) src =
     (case encrypt_filename aes key part src of
        (Inl e, src') \<Rightarrow> (Inl e, src')
      | (Inr name, src') \<Rightarrow>
          (case encrypted_parts aes key parts src' of
             (Inl e, src'') \<Rightarrow> (Inl e, src'')
           | (Inr names, src'') \<Rightarrow> (Inr (name # names), src'')))"

text \<open>
  The mapping is a Python dictionary: an association list in insertion order, where
  assigning to a key that is present replaces its value in place.
\<close>

type_synonym mapping = "(pystr \<times> pystr) list"

text \<open>
  The loop over \<^verbatim>\<open>matching_files\<close>. The set of files is given as the list of their
  paths relative to the source directory, in the order in which the set happens to be
  iterated.
\<close>

fun encrypt_files ::
  "block_cipher \<Rightarrow> bytes \<Rightarrow> tree \<Rightarrow> path list \<Rightarrow> tree \<Rightarrow> mapping \<Rightarrow> entropy \<Rightarrow>
   error + tree \<times> mapping \<times> entropy" where
  "encrypt_files aes key source [] mirror mapping src = Inr (mirror, mapping, src)"
| "encrypt_files aes key source (rel_path # files) mirror mapping src =
     (case encrypted_parts aes key rel_path src of
        (Inl e, src1) \<Rightarrow> Inl e
      | (Inr encrypted_rel_path, src1) \<Rightarrow>
          (case mkdirs mirror [] (butlast encrypted_rel_path) of
             (Some e, mirror1) \<Rightarrow> Inl e
           | (None, mirror1) \<Rightarrow>
               (case encrypt_file aes key source rel_path mirror1 encrypted_rel_path src1 of
                  (Inl e, src2) \<Rightarrow> Inl e
                | (Inr mirror2, src2) \<Rightarrow>
                    encrypt_files aes key source files mirror2
                      (AList.update (path_str encrypted_rel_path) (path_str rel_path) mapping)
                      src2)))"

text \<open>
  Clearing the backup directory: every entry that \<^verbatim>\<open>iterdir\<close> lists and that is not
  named \<^verbatim>\<open>.git\<close> goes, a directory with all that is below it.
\<close>

definition clear_backup_dir :: "tree \<Rightarrow> tree" where
  "clear_backup_dir t =
     (\<lambda>p. case p of
        [] \<Rightarrow> t []
      | name # names \<Rightarrow>
          if name \<noteq> str_literal ''.git'' \<and> t [name] \<noteq> None then None else t p)"

definition save_mapping ::
  "(mapping \<Rightarrow> pystr) \<Rightarrow> block_cipher \<Rightarrow> bytes \<Rightarrow> tree \<Rightarrow> mapping \<Rightarrow> entropy \<Rightarrow> error + tree" where
  "save_mapping json_dumps aes key mirror mapping src =
     (let mapping_json = json_dumps mapping;
          mapping_encrypted_path = [str_literal ''mapping.enc'']
      in case write_file mirror mapping_encrypted_path [] of
           Inl e \<Rightarrow> Inl e
         | Inr mirror1 \<Rightarrow>
             (case utf8_encode mapping_json of
                Inl e \<Rightarrow> Inl e
              | Inr data \<Rightarrow>
                  (case encrypt_data aes key data src of
                     (Inl e, src') \<Rightarrow> Inl e
                   | (Inr encrypted, src') \<Rightarrow>
                       Inr (mirror1(mapping_encrypted_path \<mapsto> File encrypted)))))"

text \<open>
  The part of \<^verbatim>\<open>backup\<close> between the calls of \<^verbatim>\<open>init_repo\<close> and
  \<^verbatim>\<open>commit_and_push\<close>: clear the backup directory, encrypt the files, save the mapping.
  \<^verbatim>\<open>json.dumps\<close> enters as a function from the mapping to its text.
\<close>

definition write_mirror ::
  "(mapping \<Rightarrow> pystr) \<Rightarrow> block_cipher \<Rightarrow> bytes \<Rightarrow> tree \<Rightarrow> path list \<Rightarrow> tree \<Rightarrow> entropy \<Rightarrow> error + tree" where
  "write_mirror json_dumps aes key source matching_files mirror src =
     (case encrypt_files aes key source matching_files mirror [] src of
        Inl e \<Rightarrow> Inl e
      | Inr (mirror1, mapping, src1) \<Rightarrow> save_mapping json_dumps aes key mirror1 mapping src1)"

definition backup_transform ::
  "(mapping \<Rightarrow> pystr) \<Rightarrow> block_cipher \<Rightarrow> bytes \<Rightarrow> tree \<Rightarrow> path list \<Rightarrow> tree \<Rightarrow> entropy \<Rightarrow> error + tree" where
  "backup_transform json_dumps aes key source matching_files backup_dir src =
     write_mirror json_dumps aes key source matching_files (clear_backup_dir backup_dir) src"

text \<open>
  \<^verbatim>\<open>load_config\<close> takes the password from the configuration or, when that is missing
  or empty, from the environment variable \<^verbatim>\<open>BACKUP_PASSWORD\<close>; with neither it ends
  the run with exit status 1. The other settings of the configuration are arguments of
  \<^verbatim>\<open>backup\<close> and \<^verbatim>\<open>restore\<close>, and the configuration file is taken to exist.
\<close>

definition load_config :: "pystr option \<Rightarrow> pystr option \<Rightarrow> error + pystr" where
  "load_config config_password BACKUP_PASSWORD =
     (case config_password of
        Some (c # cs) \<Rightarrow> Inr (c # cs)
      | _ \<Rightarrow>
          (case BACKUP_PASSWORD of
             Some (c # cs) \<Rightarrow> Inr (c # cs)
           | _ \<Rightarrow> Inl (SystemExit 1)))"

text \<open>
  The two operations of \<^verbatim>\<open>GitBackup\<close> belong to the version control library; they enter
  as functions on the tree of the backup directory.
\<close>

record GitBackup =
  init_repo :: "tree \<Rightarrow> tree"
  commit_and_push :: "tree \<Rightarrow> tree"

definition backup ::
  "kdf \<Rightarrow> GitBackup \<Rightarrow> (mapping \<Rightarrow> pystr) \<Rightarrow> block_cipher \<Rightarrow> pystr option \<Rightarrow> pystr option \<Rightarrow>
   tree \<Rightarrow> path list \<Rightarrow> tree \<Rightarrow> entropy \<Rightarrow> error + tree" where
  "backup PBKDF2HMAC git_backup json_dumps aes config_password BACKUP_PASSWORD source
     matching_files backup_dir src =
     (case load_config config_password BACKUP_PASSWORD of
        Inl e \<Rightarrow> Inl e
      | Inr password \<Rightarrow>
          (case BackupEncryptor PBKDF2HMAC password of
             Inl e \<Rightarrow> Inl e
           | Inr key \<Rightarrow>
               if matching_files = [] then Inr backup_dir
               else
                 (case backup_transform json_dumps aes key source matching_files
                         (init_repo git_backup backup_dir) src of
                    Inl e \<Rightarrow> Inl e
                  | Inr mirror \<Rightarrow> Inr (commit_and_push git_backup mirror))))"


subsection \<open>The file system seen by \<^verbatim>\<open>restore\<close>\<close>

text \<open>
  \<^verbatim>\<open>restore\<close> builds its paths from the texts of the mapping and leaves it to the
  operating system to resolve them. For \<^verbatim>\<open>restore\<close> a tree is therefore the whole
  file system below its root directory, which always exists, and \<^verbatim>\<open>backup_path\<close> and
  \<^verbatim>\<open>restore_path\<close> are the absolute paths that \<^verbatim>\<open>Path.resolve\<close> has returned.
  Symbolic links, permissions and names that a file system refuses are not described.
\<close>

definition is_dir :: "tree \<Rightarrow> path \<Rightarrow> bool" where
  "is_dir fs p \<longleftrightarrow> p = [] \<or> fs p = Some Dir"

text \<open>
  Looking a path up, component by component from the root: a component is looked up in a
  directory only, and two dots lead to the directory above (at the root, to the root).
  The last component need not exist.
\<close>

fun resolve :: "tree \<Rightarrow> path \<Rightarrow> path \<Rightarrow> error + path" where
  "resolve fs cur [] = Inr cur"
| "resolve fs cur (name # names) =
     (if \<not> is_dir fs cur then
        Inl (if fs cur = None then FileNotFoundError else NotADirectoryError)
      else if name = [46, 46] then resolve fs (butlast cur) names
      else resolve fs (cur @ [name]) names)"

definition path_exists :: "tree \<Rightarrow> path \<Rightarrow> bool" where
  "path_exists fs p =
     (case resolve fs [] p of Inl e \<Rightarrow> False | Inr q \<Rightarrow> q = [] \<or> fs q \<noteq> None)"

definition isdir :: "tree \<Rightarrow> path \<Rightarrow> bool" where
  "isdir fs p = (case resolve fs [] p of Inl e \<Rightarrow> False | Inr q \<Rightarrow> is_dir fs q)"

definition open_rb :: "tree \<Rightarrow> path \<Rightarrow> error + bytes" where
  "open_rb fs p =
     (case resolve fs [] p of
        Inl e \<Rightarrow> Inl e
      | Inr q \<Rightarrow>
          if q = [] then Inl IsADirectoryError
          else (case fs q of
                  None \<Rightarrow> Inl FileNotFoundError
                | Some Dir \<Rightarrow> Inl IsADirectoryError
                | Some (File data) \<Rightarrow> Inr data))"

definition open_wb :: "tree \<Rightarrow> path \<Rightarrow> bytes \<Rightarrow> error + tree" where
  "open_wb fs p data =
     (case resolve fs [] p of
        Inl e \<Rightarrow> Inl e
      | Inr q \<Rightarrow>
          if q = [] \<or> fs q = Some Dir then Inl IsADirectoryError
          else Inr (fs(q \<mapsto> File data)))"

definition os_mkdir :: "tree \<Rightarrow> path \<Rightarrow> error + tree" where
  "os_mkdir fs p =
     (case resolve fs [] p of
        Inl e \<Rightarrow> Inl e
      | Inr q \<Rightarrow>
          if q = [] \<or> fs q \<noteq> None then Inl FileExistsError
          else Inr (fs(q \<mapsto> Dir)))"

text \<open>
  A directory is made where none is; the exception of \<^verbatim>\<open>os.mkdir\<close> is dropped when
  the path is a directory already (\<^verbatim>\<open>exist_ok=True\<close>).
\<close>

definition mkdir_exist_ok :: "tree \<Rightarrow> path \<Rightarrow> error option \<times> tree" where
  "mkdir_exist_ok fs p =
     (case os_mkdir fs p of
        Inr fs' \<Rightarrow> (None, fs')
      | Inl e \<Rightarrow> if isdir fs p then (None, fs) else (Some e, fs))"

text \<open>
  \<^verbatim>\<open>os.makedirs(name, exist_ok=True)\<close>: when the path above \<^verbatim>\<open>name\<close> does not
  exist it is made first, by the same function, and a \<^verbatim>\<open>FileExistsError\<close> of that call
  is passed over. The recursion follows the components from the last one, so the
  function takes them in reverse.
\<close>

fun makedirs_rev :: "tree \<Rightarrow> path \<Rightarrow> error option \<times> tree" where
  "makedirs_rev fs [] = mkdir_exist_ok fs []"
| "makedirs_rev fs (tail # head) =
     (if path_exists fs (rev head) then mkdir_exist_ok fs (rev (tail # head))
      else
        (case makedirs_rev fs head of
           (None, fs1) \<Rightarrow> mkdir_exist_ok fs1 (rev (tail # head))
         | (Some e, fs1) \<Rightarrow>
             if e = FileExistsError then mkdir_exist_ok fs1 (rev (tail # head))
             else (Some e, fs1)))"

definition makedirs :: "tree \<Rightarrow> path \<Rightarrow> error option \<times> tree" where
  "makedirs fs name = makedirs_rev fs (rev name)"

text \<open>
  \<^verbatim>\<open>Path.mkdir(parents=True, exist_ok=True)\<close>: \<^verbatim>\<open>os.mkdir\<close> is tried first; on
  \<^verbatim>\<open>FileNotFoundError\<close> the parent is made by the same method and \<^verbatim>\<open>os.mkdir\<close> is
  tried again; any other exception is dropped when the path is a directory.
\<close>

fun path_mkdir_rev :: "tree \<Rightarrow> path \<Rightarrow> error option \<times> tree" where
  "path_mkdir_rev fs [] = mkdir_exist_ok fs []"
| "path_mkdir_rev fs (name # parent) =
     (case os_mkdir fs (rev (name # parent)) of
        Inr fs' \<Rightarrow> (None, fs')
      | Inl e \<Rightarrow>
          if e = FileNotFoundError then
            (case path_mkdir_rev fs parent of
               (Some e', fs1) \<Rightarrow> (Some e', fs1)
             | (None, fs1) \<Rightarrow> mkdir_exist_ok fs1 (rev (name # parent)))
          else if isdir fs (rev (name # parent)) then (None, fs)
          else (Some e, fs))"

definition path_mkdir :: "tree \<Rightarrow> path \<Rightarrow> error option \<times> tree" where
  "path_mkdir fs p = path_mkdir_rev fs (rev p)"

text \<open>
  \<^verbatim>\<open>base / text\<close>: the text is cut at the slashes, empty components and single dots are
  dropped, two dots stay; a text that starts with a slash replaces the base.
\<close>

fun str_split :: "pystr \<Rightarrow> nat \<Rightarrow> pystr list" where
  "str_split [] sep = [[]]"
| "str_split (c # cs) sep =
     (if c = sep then [] # str_split cs sep
      else (case str_split cs sep of [] \<Rightarrow> [[c]] | x # xs \<Rightarrow> (c # x) # xs))"

definition parse_path :: "pystr \<Rightarrow> path" where
  "parse_path s = filter (\<lambda>name. name \<noteq> [] \<and> name \<noteq> [46]) (str_split s 47)"

definition joinpath :: "path \<Rightarrow> pystr \<Rightarrow> path" where
  "joinpath base s = (if s \<noteq> [] \<and> hd s = 47 then parse_path s else base @ parse_path s)"

subsection \<open>\<^verbatim>\<open>restore\<close>\<close>

definition decrypt_file ::
  "block_cipher \<Rightarrow> bytes \<Rightarrow> tree \<Rightarrow> path \<Rightarrow> path \<Rightarrow> error option \<times> tree" where
  "decrypt_file aes key fs input_path output_path =
     (case open_rb fs input_path of
        Inl e \<Rightarrow> (Some e, fs)
      | Inr encrypted_data \<Rightarrow>
          (case decrypt_data aes key encrypted_data of
             Inl e \<Rightarrow> (Some e, fs)
           | Inr decrypted \<Rightarrow>
               (case makedirs fs (butlast output_path) of
                  (Some e, fs1) \<Rightarrow> (Some e, fs1)
                | (None, fs1) \<Rightarrow>
                    (case open_wb fs1 output_path decrypted of
                       Inl e \<Rightarrow> (Some e, fs1)
                     | Inr fs2 \<Rightarrow> (None, fs2)))))"

text \<open>
  The loop over \<^verbatim>\<open>mapping.items()\<close>. It returns the count that the script reports, or
  the exception that ended the run, together with the file system it leaves and the
  encrypted paths for which a warning was printed.
\<close>

fun restore_files ::
  "block_cipher \<Rightarrow> bytes \<Rightarrow> path \<Rightarrow> path \<Rightarrow> mapping \<Rightarrow> tree \<Rightarrow> nat \<Rightarrow> pystr list \<Rightarrow>
   (error + nat) \<times> tree \<times> pystr list" where
  "restore_files aes key backup_path restore_path [] fs restored_count warnings =
     (Inr restored_count, fs, warnings)"
| "restore_files aes key backup_path restore_path ((encrypted_rel_path, original_rel_path) # items)
     fs restored_count warnings =
     (let encrypted_full_path = joinpath backup_path encrypted_rel_path;
          restore_full_path = joinpath restore_path original_rel_path
      in if \<not> path_exists fs encrypted_full_path then
           restore_files aes key backup_path restore_path items fs restored_count
             (warnings @ [encrypted_rel_path])
         else
           (case decrypt_file aes key fs encrypted_full_path restore_full_path of
              (Some e, fs1) \<Rightarrow> (Inl e, fs1, warnings)
            | (None, fs1) \<Rightarrow>
                restore_files aes key backup_path restore_path items fs1 (restored_count + 1)
                  warnings))"

text \<open>
  \<^verbatim>\<open>restore\<close> after \<^verbatim>\<open>clone_or_pull\<close> has made the backup directory available:
  \<open>fs\<close> is the file system that \<^verbatim>\<open>clone_or_pull\<close> leaves. The password is looked up by
  \<^verbatim>\<open>load_config\<close> as in \<^verbatim>\<open>backup\<close>. \<^verbatim>\<open>json.loads\<close> enters as a function from the text
  to the exception it raises or to the items of the dictionary it returns, in their
  order; the dictionary is taken to map strings to strings, as the one that \<^verbatim>\<open>backup\<close>
  writes does.
\<close>

definition restore ::
  "kdf \<Rightarrow> (pystr \<Rightarrow> error + mapping) \<Rightarrow> block_cipher \<Rightarrow> pystr option \<Rightarrow> pystr option \<Rightarrow>
   tree \<Rightarrow> path \<Rightarrow> path \<Rightarrow> (error + nat) \<times> tree \<times> pystr list" where
  "restore PBKDF2HMAC json_loads aes config_password BACKUP_PASSWORD fs backup_path restore_path =
     (case load_config config_password BACKUP_PASSWORD of
        Inl e \<Rightarrow> (Inl e, fs, [])
      | Inr password \<Rightarrow>
          (case BackupDecryptor PBKDF2HMAC password of
             Inl e \<Rightarrow> (Inl e, fs, [])
           | Inr key \<Rightarrow>
               (let mapping_encrypted_path = backup_path @ [str_literal ''mapping.enc''] in
                if \<not> path_exists fs mapping_encrypted_path then (Inl (SystemExit 1), fs, [])
                else
                  (case open_rb fs mapping_encrypted_path of
                     Inl e \<Rightarrow> (Inl e, fs, [])
                   | Inr encrypted_mapping \<Rightarrow>
                       (case decrypt_data aes key encrypted_mapping of
                          Inl e \<Rightarrow> (Inl e, fs, [])
                        | Inr data \<Rightarrow>
                            (case utf8_decode data of
                               Inl e \<Rightarrow> (Inl e, fs, [])
                             | Inr mapping_json \<Rightarrow>
                                 (case json_loads mapping_json of
                                    Inl e \<Rightarrow> (Inl e, fs, [])
                                  | Inr mapping \<Rightarrow>
                                      (case path_mkdir fs restore_path of
                                         (Some e, fs1) \<Rightarrow> (Inl e, fs1, [])
                                       | (None, fs1) \<Rightarrow>
                                           restore_files aes key backup_path restore_path
                                             mapping fs1 0 []))))))))"


subsection \<open>Notions used in the statements\<close>

text \<open>
  A tree is closed at the top when every entry lies below an entry of the root, as in any
  file system. \<open>put_file\<close> is the tree after a file has been written together with the
  directories above it.
\<close>

definition top_closed :: "tree \<Rightarrow> bool" where
  "top_closed t \<longleftrightarrow> (\<forall>name names. t (name # names) \<noteq> None \<longrightarrow> t [name] \<noteq> None)"

definition put_file :: "tree \<Rightarrow> path \<Rightarrow> bytes \<Rightarrow> tree" where
  "put_file t p data =
     (\<lambda>q. if q = p then Some (File data)
          else if q \<noteq> [] \<and> strict_prefix q p then Some Dir
          else t q)"

definition can_put :: "tree \<Rightarrow> path \<Rightarrow> bool" where
  "can_put t p \<longleftrightarrow>
     p \<noteq> [] \<and> t p \<noteq> Some Dir \<and>
     (\<forall>q. q \<noteq> [] \<and> strict_prefix q p \<longrightarrow> (\<forall>data. t q \<noteq> Some (File data)))"


text \<open>
  Notions for the statements about \<^verbatim>\<open>restore\<close>. A text of the mapping is plain when
  it is relative, has no component of two dots and no character that a file name cannot
  hold, as the texts that \<^verbatim>\<open>backup\<close> writes. A path is resolved when it is one that
  \<^verbatim>\<open>Path.resolve\<close> returns: its components are names.
  An item is present when its encrypted path exists in the backup directory;
  \<open>plaintext_of\<close> is what reading and decrypting the file at that path gives, and the
  target is where the plaintext goes. \<open>add_dirs\<close> is the tree after the directories on a
  path have been made.
\<close>

definition plain :: "pystr \<Rightarrow> bool" where
  "plain s \<longleftrightarrow>
     \<not> (s \<noteq> [] \<and> hd s = 47) \<and> [46, 46] \<notin> set (parse_path s) \<and> 0 \<notin> set s \<and> encodable s"

definition resolved :: "path \<Rightarrow> bool" where
  "resolved p \<longleftrightarrow>
     (\<forall>name \<in> set p. name \<noteq> [] \<and> name \<noteq> [46] \<and> name \<noteq> [46, 46] \<and>
        47 \<notin> set name \<and> 0 \<notin> set name \<and> encodable name)"

definition present :: "tree \<Rightarrow> path \<Rightarrow> pystr \<times> pystr \<Rightarrow> bool" where
  "present fs backup_path item \<longleftrightarrow> path_exists fs (joinpath backup_path (fst item))"

definition plaintext_of ::
  "block_cipher \<Rightarrow> bytes \<Rightarrow> tree \<Rightarrow> path \<Rightarrow> pystr \<times> pystr \<Rightarrow> error + bytes" where
  "plaintext_of aes key fs backup_path item =
     (case open_rb fs (joinpath backup_path (fst item)) of
        Inl e \<Rightarrow> Inl e
      | Inr encrypted_data \<Rightarrow> decrypt_data aes key encrypted_data)"

definition target :: "path \<Rightarrow> pystr \<times> pystr \<Rightarrow> path" where
  "target restore_path item = joinpath restore_path (snd item)"

definition add_dirs :: "tree \<Rightarrow> path \<Rightarrow> tree" where
  "add_dirs fs p = (\<lambda>q. if q \<noteq> [] \<and> prefix q p \<and> fs q = None then Some Dir else fs q)"





text \<open>A small backup directory and mapping for evaluating the definitions.\<close>

definition demo_backup_dir :: tree where
  "demo_backup_dir =
     (\<lambda>p. if p = [str_literal ''.git''] then Some Dir
          else if p = [str_literal ''.git'', str_literal ''HEAD''] then Some (File [1])
          else if p = [str_literal ''stale''] then Some (File [2])
          else None)"


text \<open>
  A small file system for evaluating \<^verbatim>\<open>restore\<close>: the backup directory \<^verbatim>\<open>/b\<close> holds the
  mapping and the encrypted file \<^verbatim>\<open>a\<close>; the mapping, whose text is
  \<^verbatim>\<open>{"a":"d/x","b":"y"}\<close>, also names an encrypted file \<^verbatim>\<open>b\<close> that is not there.
\<close>

definition demo_key :: bytes where
  "demo_key = take_kdf SHA256 32 (bytes_literal ''Git-Backup-Enc-Salt-v1'') 100000 [112, 119]"

definition demo_blob :: "bytes \<Rightarrow> bytes" where
  "demo_blob data =
     replicate 16 0 @
     cbc_encrypt_blocks shift_cipher demo_key (replicate 16 0) (blocks (pkcs7_pad data))"

definition demo_json :: pystr where
  "demo_json = [123, 34, 97, 34, 58, 34, 100, 47, 120, 34, 44, 34, 98, 34, 58, 34, 121, 34, 125]"

definition demo_mapping :: mapping where
  "demo_mapping = [([97], [100, 47, 120]), ([98], [121])]"

definition demo_json_loads :: "pystr \<Rightarrow> error + mapping" where
  "demo_json_loads s = (if s = demo_json then Inr demo_mapping else Inl JSONDecodeError)"

definition demo_fs :: tree where
  "demo_fs =
     (\<lambda>p. if p = [[98]] then Some Dir
          else if p = [[98], str_literal ''mapping.enc''] then
            Some (File (demo_blob (map of_nat demo_json)))
          else if p = [[98], [97]] then Some (File (demo_blob [7]))
          else None)"




section \<open>Properties\<close>


lemma blocks_Nil: "blocks [] = []"
  by (simp add: blocks.simps)

lemma blocks_append:
  assumes "length b = 16"
  shows "blocks (b @ rest) = b # blocks rest"
proof -
  have "\<not> length (b @ rest) < 16" using assms by simp
  then have "blocks (b @ rest) = take 16 (b @ rest) # blocks (drop 16 (b @ rest))"
    by (subst blocks.simps) (simp only: if_False)
  moreover have "take 16 (b @ rest) = b" "drop 16 (b @ rest) = rest"
    using assms by simp_all
  ultimately show ?thesis by (simp only:)
qed

lemma leftover_Nil_iff: "leftover xs = [] \<longleftrightarrow> length xs mod 16 = 0"
proof -
  have "length xs \<le> 16 * (length xs div 16) \<longleftrightarrow> length xs mod 16 = 0"
    by presburger
  then show ?thesis by (simp add: leftover_def)
qed

lemma blocks_length: "b \<in> set (blocks xs) \<Longrightarrow> length b = 16"
proof (induction xs rule: blocks.induct)
  case (1 xs)
  show ?case
  proof (cases "length xs < 16")
    case True
    with "1.prems" show ?thesis by (simp add: blocks.simps)
  next
    case False
    with "1.prems" have "b = take 16 xs \<or> b \<in> set (blocks (drop 16 xs))"
      using blocks.simps [of xs] by simp
    with False "1.IH" show ?thesis by auto
  qed
qed

lemma concat_blocks: "length xs mod 16 = 0 \<Longrightarrow> concat (blocks xs) = xs"
proof (induction xs rule: blocks.induct)
  case (1 xs)
  show ?case
  proof (cases "length xs < 16")
    case True
    with "1.prems" have "xs = []" by simp
    then show ?thesis by (simp add: blocks_Nil)
  next
    case False
    then have "(length xs - 16) mod 16 = 0" using "1.prems"
      by (simp add: mod_eq_0_iff_dvd)
    with False "1.IH" have "concat (blocks (drop 16 xs)) = drop 16 xs" by simp
    moreover have "blocks xs = take 16 xs # blocks (drop 16 xs)"
      using False blocks.simps [of xs] by simp
    ultimately show ?thesis by simp
  qed
qed

lemma length_blocks: "length (blocks xs) = length xs div 16"
proof (induction xs rule: blocks.induct)
  case (1 xs)
  show ?case
  proof (cases "length xs < 16")
    case True
    then show ?thesis by (simp add: blocks.simps)
  next
    case False
    with "1.IH" have "length (blocks (drop 16 xs)) = (length xs - 16) div 16" by simp
    moreover have "blocks xs = take 16 xs # blocks (drop 16 xs)"
      using False blocks.simps [of xs] by simp
    ultimately show ?thesis using False by (simp add: le_div_geq)
  qed
qed

lemma xor_bytes_length: "length a = length b \<Longrightarrow> length (xor_bytes a b) = length b"
  by (simp add: xor_bytes_def)

lemma xor_bytes_cancel: "length a = length b \<Longrightarrow> xor_bytes a (xor_bytes a b) = b"
proof (induction a arbitrary: b)
  case Nil then show ?case by (simp add: xor_bytes_def)
next
  case (Cons x a)
  then obtain y b' where "b = y # b'" by (cases b) auto
  with Cons show ?case by (simp add: xor_bytes_def xor.assoc [symmetric])
qed

lemma cbc_encrypt_blocks_length:
  "block_cipher_ok aes key \<Longrightarrow> length prev = 16 \<Longrightarrow> \<forall>p \<in> set ps. length p = 16 \<Longrightarrow>
   length (cbc_encrypt_blocks aes key prev ps) = 16 * length ps"
  by (induction ps arbitrary: prev) (auto simp: Let_def block_cipher_ok_def xor_bytes_length)

lemma cbc_blocks_roundtrip:
  "block_cipher_ok aes key \<Longrightarrow> length prev = 16 \<Longrightarrow> \<forall>p \<in> set ps. length p = 16 \<Longrightarrow>
   cbc_decrypt_blocks aes key prev (blocks (cbc_encrypt_blocks aes key prev ps)) = concat ps"
proof (induction ps arbitrary: prev)
  case Nil
  then show ?case by (simp add: blocks_Nil)
next
  case (Cons p ps)
  let ?c = "encrypt_block aes key (xor_bytes prev p)"
  have lp: "length p = 16" using Cons.prems by simp
  have lx: "length (xor_bytes prev p) = 16" using Cons.prems lp by (simp add: xor_bytes_length)
  have lc: "length ?c = 16" and dc: "decrypt_block aes key ?c = xor_bytes prev p"
    using Cons.prems(1) lx by (simp_all add: block_cipher_ok_def)
  have "cbc_decrypt_blocks aes key ?c (blocks (cbc_encrypt_blocks aes key ?c ps)) = concat ps"
    using Cons.IH [of ?c] Cons.prems lc by simp
  then show ?case
    using lc dc lp Cons.prems(2) by (simp add: Let_def blocks_append xor_bytes_cancel)
qed

lemma pkcs7_pad_length: "length (pkcs7_pad d) mod 16 = 0"
proof -
  have "(length d + (16 - length d mod 16)) mod 16 = 0" by presburger
  then show ?thesis by (simp add: pkcs7_pad_def Let_def)
qed

lemma pkcs7_pad_length_eq: "length (pkcs7_pad d) = 16 * (length d div 16 + 1)"
proof -
  have "length d + (16 - length d mod 16) = 16 * (length d div 16 + 1)" by presburger
  then show ?thesis by (simp add: pkcs7_pad_def Let_def)
qed

lemma pkcs7_roundtrip: "pkcs7_unpad (pkcs7_pad d) = Inr d"
proof -
  define n where "n = 16 - length d mod 16"
  have n: "0 < n" "n \<le> 16" by (simp_all add: n_def)
  have pad: "pkcs7_pad d = d @ replicate n (of_nat n)" by (simp add: pkcs7_pad_def n_def Let_def)
  have u: "unat (of_nat n :: byte) = n" using n by (simp add: unat_of_nat)
  have l: "last (pkcs7_pad d) = of_nat n" using n by (simp add: pad)
  have m: "length (pkcs7_pad d) mod 16 = 0" by (rule pkcs7_pad_length)
  have ne: "pkcs7_pad d \<noteq> []" using n by (simp add: pad)
  show ?thesis
    unfolding pkcs7_unpad_def using m ne n
    by (simp add: l u Let_def) (simp add: pad)
qed


lemma unat_byte: "n < 256 \<Longrightarrow> unat (of_nat n :: byte) = n"
  by (simp add: unat_of_nat)

lemma utf8_decode_1:
  "unat b0 < 0x80 \<Longrightarrow>
   utf8_decode (b0 # rest) =
     (case utf8_decode rest of Inl e \<Rightarrow> Inl e | Inr cs \<Rightarrow> Inr (unat b0 # cs))"
  by simp

lemma utf8_decode_2:
  "0xC2 \<le> unat b0 \<Longrightarrow> unat b0 < 0xE0 \<Longrightarrow> continuation b1 \<Longrightarrow>
   utf8_decode (b0 # b1 # rest) =
     (case utf8_decode rest of Inl e \<Rightarrow> Inl e
      | Inr cs \<Rightarrow> Inr (((unat b0 - 0xC0) * 64 + (unat b1 - 0x80)) # cs))"
  by simp

lemma utf8_decode_3:
  "0xE0 \<le> unat b0 \<Longrightarrow> unat b0 < 0xF0 \<Longrightarrow> continuation b1 \<Longrightarrow> continuation b2 \<Longrightarrow>
   c = (unat b0 - 0xE0) * 4096 + (unat b1 - 0x80) * 64 + (unat b2 - 0x80) \<Longrightarrow>
   0x800 \<le> c \<Longrightarrow> \<not> (0xD800 \<le> c \<and> c \<le> 0xDFFF) \<Longrightarrow>
   utf8_decode (b0 # b1 # b2 # rest) =
     (case utf8_decode rest of Inl e \<Rightarrow> Inl e | Inr cs \<Rightarrow> Inr (c # cs))"
  by (simp add: Let_def split: sum.splits)

lemma utf8_decode_4:
  "0xF0 \<le> unat b0 \<Longrightarrow> unat b0 < 0xF5 \<Longrightarrow>
   continuation b1 \<Longrightarrow> continuation b2 \<Longrightarrow> continuation b3 \<Longrightarrow>
   c = (unat b0 - 0xF0) * 262144 + (unat b1 - 0x80) * 4096 + (unat b2 - 0x80) * 64 + (unat b3 - 0x80) \<Longrightarrow>
   0x10000 \<le> c \<Longrightarrow> c < 0x110000 \<Longrightarrow>
   utf8_decode (b0 # b1 # b2 # b3 # rest) =
     (case utf8_decode rest of Inl e \<Rightarrow> Inl e | Inr cs \<Rightarrow> Inr (c # cs))"
  by (simp add: Let_def split: sum.splits)

lemma continuation_byte: "continuation (of_nat (0x80 + n mod 64))"
proof -
  have "unat (of_nat (0x80 + n mod 64) :: byte) = 0x80 + n mod 64"
    by (intro unat_byte) simp
  then show ?thesis unfolding continuation_def by simp
qed

lemma unat_continuation_byte: "unat (of_nat (0x80 + n mod 64) :: byte) - 0x80 = n mod 64"
proof -
  have "unat (of_nat (0x80 + n mod 64) :: byte) = 0x80 + n mod 64"
    by (intro unat_byte) simp
  then show ?thesis by simp
qed

lemma split3: "(c::nat) div 4096 * 4096 + c div 64 mod 64 * 64 + c mod 64 = c"
proof -
  have a: "c div 4096 = c div 64 div 64" by (simp add: div_mult2_eq [symmetric])
  have "c = 64 * (c div 64) + c mod 64"
    and "c div 64 = 64 * (c div 64 div 64) + c div 64 mod 64" by simp_all
  then show ?thesis unfolding a by linarith
qed

lemma split4: "(c::nat) div 262144 * 262144 + c div 4096 mod 64 * 4096 + c div 64 mod 64 * 64 + c mod 64 = c"
proof -
  have a: "c div 4096 = c div 64 div 64" by (simp add: div_mult2_eq [symmetric])
  have b: "c div 262144 = c div 64 div 64 div 64" by (simp add: div_mult2_eq [symmetric])
  have "c = 64 * (c div 64) + c mod 64"
    and "c div 64 = 64 * (c div 64 div 64) + c div 64 mod 64"
    and "c div 64 div 64 = 64 * (c div 64 div 64 div 64) + c div 64 div 64 mod 64" by simp_all
  then show ?thesis unfolding a b by linarith
qed

lemma utf8_decode_encode_char:
  assumes "utf8_encode_char c = Inr bs"
  shows "utf8_decode (bs @ rest) =
         (case utf8_decode rest of Inl e \<Rightarrow> Inl e | Inr cs \<Rightarrow> Inr (c # cs))"
proof -
  consider (1) "c < 0x80" | (2) "0x80 \<le> c" "c < 0x800"
    | (3) "0x800 \<le> c" "c < 0x10000" "\<not> (0xD800 \<le> c \<and> c \<le> 0xDFFF)"
    | (4) "0x10000 \<le> c" "c < 0x110000"
    using assms by (auto simp: utf8_encode_char_def split: if_splits) 
  then show ?thesis
  proof cases
    case 1
    define b0 :: byte where "b0 = of_nat c"
    have bs: "bs = [b0]" using 1 assms by (simp add: utf8_encode_char_def b0_def)
    have u: "unat b0 = c" unfolding b0_def using 1 by (intro unat_byte) simp
    show ?thesis unfolding bs using utf8_decode_1 [of b0 rest] u 1 by (simp split: sum.splits)
  next
    case 2
    define b0 :: byte where "b0 = of_nat (0xC0 + c div 64)"
    define b1 :: byte where "b1 = of_nat (0x80 + c mod 64)"
    have bs: "bs = [b0, b1]"
      using 2 assms by (simp add: utf8_encode_char_def b0_def b1_def)
    have u0: "unat b0 = 0xC0 + c div 64" unfolding b0_def using 2 by (intro unat_byte) simp
    have c1: "continuation b1" and u1: "unat b1 - 0x80 = c mod 64"
      unfolding b1_def by (rule continuation_byte, rule unat_continuation_byte)
    have r: "0xC2 \<le> unat b0" "unat b0 < 0xE0" "(unat b0 - 0xC0) * 64 + c mod 64 = c"
      using 2 unfolding u0 by simp_all
    show ?thesis unfolding bs using utf8_decode_2 [OF r(1,2) c1, of rest] r(3) u1 by (simp split: sum.splits)
  next
    case 3
    define b0 :: byte where "b0 = of_nat (0xE0 + c div 4096)"
    define b1 :: byte where "b1 = of_nat (0x80 + c div 64 mod 64)"
    define b2 :: byte where "b2 = of_nat (0x80 + c mod 64)"
    have bs: "bs = [b0, b1, b2]"
    proof -
      have "\<not> c < 0x80" "\<not> c < 0x800" using 3 by simp_all
      then have "utf8_encode_char c = Inr [b0, b1, b2]"
        unfolding utf8_encode_char_def b0_def b1_def b2_def using 3(2,3)
        by (simp only: if_False if_True)
      with assms show ?thesis by simp
    qed
    have u0: "unat b0 = 0xE0 + c div 4096" unfolding b0_def using 3 by (intro unat_byte) simp
    have c1: "continuation b1" and u1: "unat b1 - 0x80 = c div 64 mod 64"
      unfolding b1_def by (rule continuation_byte, rule unat_continuation_byte)
    have c2: "continuation b2" and u2: "unat b2 - 0x80 = c mod 64"
      unfolding b2_def by (rule continuation_byte, rule unat_continuation_byte)
    have r: "0xE0 \<le> unat b0" "unat b0 < 0xF0" using 3 unfolding u0 by simp_all
    have e: "c = (unat b0 - 0xE0) * 4096 + (unat b1 - 0x80) * 64 + (unat b2 - 0x80)"
      unfolding u0 u1 u2 using split3 [of c] by simp
    show ?thesis unfolding bs using utf8_decode_3 [OF r c1 c2 e 3(1,3), of rest] by simp
  next
    case 4
    define b0 :: byte where "b0 = of_nat (0xF0 + c div 262144)"
    define b1 :: byte where "b1 = of_nat (0x80 + c div 4096 mod 64)"
    define b2 :: byte where "b2 = of_nat (0x80 + c div 64 mod 64)"
    define b3 :: byte where "b3 = of_nat (0x80 + c mod 64)"
    have bs: "bs = [b0, b1, b2, b3]"
      using 4 assms by (simp add: utf8_encode_char_def b0_def b1_def b2_def b3_def)
    have u0: "unat b0 = 0xF0 + c div 262144" unfolding b0_def using 4 by (intro unat_byte) simp
    have c1: "continuation b1" and u1: "unat b1 - 0x80 = c div 4096 mod 64"
      unfolding b1_def by (rule continuation_byte, rule unat_continuation_byte)
    have c2: "continuation b2" and u2: "unat b2 - 0x80 = c div 64 mod 64"
      unfolding b2_def by (rule continuation_byte, rule unat_continuation_byte)
    have c3: "continuation b3" and u3: "unat b3 - 0x80 = c mod 64"
      unfolding b3_def by (rule continuation_byte, rule unat_continuation_byte)
    have r: "0xF0 \<le> unat b0" "unat b0 < 0xF5" using 4 unfolding u0 by simp_all
    have e: "c = (unat b0 - 0xF0) * 262144 + (unat b1 - 0x80) * 4096
                      + (unat b2 - 0x80) * 64 + (unat b3 - 0x80)"
      unfolding u0 u1 u2 u3 using split4 [of c] by simp
    show ?thesis unfolding bs using utf8_decode_4 [OF r c1 c2 c3 e 4, of rest] by simp
  qed
qed

lemma utf8_roundtrip: "utf8_encode s = Inr bs \<Longrightarrow> utf8_decode bs = Inr s"
proof (induction s arbitrary: bs)
  case Nil
  then show ?case by simp
next
  case (Cons c cs)
  then obtain b1 b2 where b: "utf8_encode_char c = Inr b1" "utf8_encode cs = Inr b2" "bs = b1 @ b2"
    by (auto split: sum.splits)
  with Cons.IH have "utf8_decode b2 = Inr cs" by simp
  with b show ?case by (simp add: utf8_decode_encode_char)
qed

lemma utf8_encode_total: "encodable s \<Longrightarrow> \<exists>bs. utf8_encode s = Inr bs"
proof (induction s)
  case Nil then show ?case by simp
next
  case (Cons c cs)
  then obtain b2 where "utf8_encode cs = Inr b2" by (auto simp: encodable_def)
  moreover have "\<exists>b1. utf8_encode_char c = Inr b1"
    using Cons.prems by (auto simp: encodable_def utf8_encode_char_def)
  ultimately show ?case by auto
qed


lemma unat_table_b2a:
  "i < 64 \<Longrightarrow> unat (table_b2a_base64 i) =
     (if i < 26 then 65 + i else if i < 52 then 71 + i
      else if i < 62 then i - 4 else if i = 62 then 43 else 47)"
  unfolding table_b2a_base64_def by (intro unat_byte) auto

lemma byte_eq_iff: "(a :: byte) = b \<longleftrightarrow> unat a = unat b"
  by (simp add: word_unat_eq_iff)

lemma unat_uc:
  assumes "i < 64"
  shows "unat (uc i) =
     (if i < 26 then 65 + i else if i < 52 then 71 + i
      else if i < 62 then i - 4 else if i = 62 then 45 else 95)"
proof -
  have "table_b2a_base64 i = 43 \<longleftrightarrow> i = 62" "table_b2a_base64 i = 47 \<longleftrightarrow> i = 63"
    using assms by (auto simp: byte_eq_iff unat_table_b2a split: if_splits)
  then show ?thesis using assms
    by (auto simp: uc_def urlsafe_encode_translation_def unat_table_b2a)
qed

lemma uc_props:
  assumes "i < 64"
  shows "uc i \<noteq> 61" "unat (uc i) < 128" "urlsafe_char (unat (uc i))"
    "table_a2b_base64 (urlsafe_decode_translation (uc i)) = Some i"
    "urlsafe_decode_translation (uc i) \<noteq> 61"
proof -
  show "uc i \<noteq> 61" using assms by (auto simp: byte_eq_iff unat_uc split: if_splits)
  show "unat (uc i) < 128" using assms by (auto simp: unat_uc split: if_splits)
  show "urlsafe_char (unat (uc i))"
    using assms by (auto simp: unat_uc urlsafe_char_def split: if_splits)
  have t: "urlsafe_decode_translation (uc i) = table_b2a_base64 i"
    using assms 
    by (auto simp: urlsafe_decode_translation_def byte_eq_iff unat_uc unat_table_b2a split: if_splits)
  show "table_a2b_base64 (urlsafe_decode_translation (uc i)) = Some i"
    unfolding t table_a2b_base64_def using assms
    by (auto simp: unat_table_b2a Let_def)
  show "urlsafe_decode_translation (uc i) \<noteq> 61"
    unfolding t using assms by (auto simp: byte_eq_iff unat_table_b2a split: if_splits)
qed


lemma dec_tr_61: "urlsafe_decode_translation 61 = 61"
  by (simp add: urlsafe_decode_translation_def)

lemma a2b_step:
  assumes "i < 64"
  shows "a2b_base64 (urlsafe_decode_translation (uc i) # rest) q p l out =
     (if q = 0 then a2b_base64 rest 1 0 i out
      else if q = 1 then a2b_base64 rest 2 0 (i mod 16) (out @ [of_nat (l * 4 + i div 16)])
      else if q = 2 then a2b_base64 rest 3 0 (i mod 4) (out @ [of_nat (l * 16 + i div 4)])
      else a2b_base64 rest 0 0 0 (out @ [of_nat (l * 64 + i)]))"
  using uc_props(4,5) [OF assms] by simp

lemma a2b_group:
  assumes "i0 < 64" "i1 < 64" "i2 < 64" "i3 < 64"
  shows "a2b_base64 (map urlsafe_decode_translation [uc i0, uc i1, uc i2, uc i3] @ rest) 0 p l out =
         a2b_base64 rest 0 0 0
           (out @ [of_nat (i0 * 4 + i1 div 16), of_nat (i1 mod 16 * 16 + i2 div 4),
                   of_nat (i2 mod 4 * 64 + i3)])"
  using assms by (simp add: a2b_step del: a2b_base64.simps)

lemma a2b_tail2:
  assumes "i0 < 64" "i1 < 64" "i2 < 64"
  shows "a2b_base64 (map urlsafe_decode_translation ([uc i0, uc i1, uc i2] @ replicate 1 61)) 0 p l out =
         Inr (out @ [of_nat (i0 * 4 + i1 div 16), of_nat (i1 mod 16 * 16 + i2 div 4)])"
proof -
  have "a2b_base64 [61] 3 0 x y = Inr y" for x y by simp
  then show ?thesis using assms by (simp add: a2b_step dec_tr_61 del: a2b_base64.simps)
qed

lemma a2b_tail1:
  assumes "i0 < 64" "i1 < 64"
  shows "a2b_base64 (map urlsafe_decode_translation ([uc i0, uc i1] @ replicate 2 61)) 0 p l out =
         Inr (out @ [of_nat (i0 * 4 + i1 div 16)])"
proof -
  have "a2b_base64 [61, 61] 2 0 x y = Inr y" for x y by simp
  then show ?thesis using assms
    by (simp add: a2b_step dec_tr_61 numeral_2_eq_2 del: a2b_base64.simps)
qed
lemma unat_lt_256: "unat (a :: byte) < 256"
proof -
  have "unat a < 2 ^ LENGTH(8)" by (rule unsigned_less)
  then show ?thesis by simp
qed

lemma sextet_bounds:
  fixes a b c :: byte
  shows "unat a div 4 < 64" "unat a mod 4 * 16 + unat b div 16 < 64"
    "unat b mod 16 * 4 + unat c div 64 < 64" "unat c mod 64 < 64"
    "unat a mod 4 * 16 < 64" "unat b mod 16 * 4 < 64"
proof -
  have "unat a mod 4 < 4" "unat b mod 16 < 16" by simp_all
  moreover have "unat b div 16 < 16" "unat c div 64 < 4"
    using unat_lt_256 [of b] unat_lt_256 [of c] by simp_all
  ultimately show "unat a mod 4 * 16 + unat b div 16 < 64"
    "unat b mod 16 * 4 + unat c div 64 < 64"
    "unat a mod 4 * 16 < 64" "unat b mod 16 * 4 < 64" by linarith+
  show "unat a div 4 < 64" "unat c mod 64 < 64" using unat_lt_256 [of a] by simp_all
qed

lemma sextet_join:
  fixes a b c :: byte
  shows "unat a div 4 * 4 + (unat a mod 4 * 16 + unat b div 16) div 16 = unat a"
    "(unat a mod 4 * 16 + unat b div 16) mod 16 * 16 + (unat b mod 16 * 4 + unat c div 64) div 4 = unat b"
    "(unat b mod 16 * 4 + unat c div 64) mod 4 * 64 + unat c mod 64 = unat c"
    "unat a div 4 * 4 + (unat a mod 4 * 16) div 16 = unat a"
    "(unat a mod 4 * 16 + unat b div 16) mod 16 * 16 + (unat b mod 16 * 4) div 4 = unat b"
proof -
  have b: "unat b div 16 < 16" and c: "unat c div 64 < 4"
    using unat_lt_256 [of b] unat_lt_256 [of c] by simp_all
  have 1: "(unat a mod 4 * 16 + unat b div 16) div 16 = unat a mod 4" using b by simp
  have 2: "(unat a mod 4 * 16 + unat b div 16) mod 16 = unat b div 16" using b by simp
  have 3: "(unat b mod 16 * 4 + unat c div 64) div 4 = unat b mod 16" using c by simp
  have 4: "(unat b mod 16 * 4 + unat c div 64) mod 4 = unat c div 64" using c by simp
  show "unat a div 4 * 4 + (unat a mod 4 * 16 + unat b div 16) div 16 = unat a"
    unfolding 1 by simp
  show "(unat a mod 4 * 16 + unat b div 16) mod 16 * 16 + (unat b mod 16 * 4 + unat c div 64) div 4 = unat b"
    unfolding 2 3 by simp
  show "(unat b mod 16 * 4 + unat c div 64) mod 4 * 64 + unat c mod 64 = unat c"
    unfolding 4 by simp
  show "unat a div 4 * 4 + (unat a mod 4 * 16) div 16 = unat a" by simp
  show "(unat a mod 4 * 16 + unat b div 16) mod 16 * 16 + (unat b mod 16 * 4) div 4 = unat b"
    unfolding 2 by simp
qed

lemma uc_61: "urlsafe_encode_translation 61 = 61"
  by (simp add: urlsafe_encode_translation_def)

lemma b64_structure:
  "\<exists>body p. urlsafe_b64encode bs = body @ replicate p 61 \<and>
     (\<forall>c \<in> set body. c \<noteq> 61 \<and> unat c < 128 \<and> urlsafe_char (unat c)) \<and> p \<le> 2 \<and> (length body + p) mod 4 = 0 \<and>
     (\<forall>pads l out.
        a2b_base64 (map urlsafe_decode_translation (body @ replicate p 61)) 0 pads l out =
        Inr (out @ bs))"
proof (induction bs rule: b64encode.induct)
  case (1 a b c rest)
  from "1.IH" obtain body p where IH0:
    "urlsafe_b64encode rest = body @ replicate p 61 \<and>
     (\<forall>c \<in> set body. c \<noteq> 61 \<and> unat c < 128 \<and> urlsafe_char (unat c)) \<and> p \<le> 2 \<and> (length body + p) mod 4 = 0 \<and>
     (\<forall>pads l out.
        a2b_base64 (map urlsafe_decode_translation (body @ replicate p 61)) 0 pads l out =
        Inr (out @ rest))"
    by (elim exE) (rule that)
  have IH: "urlsafe_b64encode rest = body @ replicate p 61"
     "\<forall>c \<in> set body. c \<noteq> 61 \<and> unat c < 128 \<and> urlsafe_char (unat c)" "p \<le> 2" "(length body + p) mod 4 = 0"
     "\<And>pads l out.
        a2b_base64 (map urlsafe_decode_translation (body @ replicate p 61)) 0 pads l out =
        Inr (out @ rest)"
    using IH0 by blast+
  define i0 where "i0 = unat a div 4"
  define i1 where "i1 = unat a mod 4 * 16 + unat b div 16"
  define i2 where "i2 = unat b mod 16 * 4 + unat c div 64"
  define i3 where "i3 = unat c mod 64"
  have bnd: "i0 < 64" "i1 < 64" "i2 < 64" "i3 < 64"
    unfolding i0_def i1_def i2_def i3_def
    by (rule sextet_bounds)+
  have j: "i0 * 4 + i1 div 16 = unat a" "i1 mod 16 * 16 + i2 div 4 = unat b"
          "i2 mod 4 * 64 + i3 = unat c"
    unfolding i0_def i1_def i2_def i3_def
    by (rule sextet_join)+
  let ?g = "[uc i0, uc i1, uc i2, uc i3]"
  have e: "urlsafe_b64encode (a # b # c # rest) = (?g @ body) @ replicate p 61"
    using IH(1) by (simp add: urlsafe_b64encode_def uc_def i0_def i1_def i2_def i3_def)
  have s: "\<forall>c \<in> set (?g @ body). c \<noteq> 61 \<and> unat c < 128 \<and> urlsafe_char (unat c)"
    using IH(2) bnd by (simp add: uc_props)
  have l: "(length (?g @ body) + p) mod 4 = 0" using IH(4) by simp
  have d: "a2b_base64 (map urlsafe_decode_translation ((?g @ body) @ replicate p 61)) 0 pads l out =
        Inr (out @ a # b # c # rest)" for pads l out
  proof -
    have "a2b_base64 (map urlsafe_decode_translation ?g @
                      map urlsafe_decode_translation (body @ replicate p 61)) 0 pads l out =
          a2b_base64 (map urlsafe_decode_translation (body @ replicate p 61)) 0 0 0
            (out @ [of_nat (i0 * 4 + i1 div 16), of_nat (i1 mod 16 * 16 + i2 div 4),
                   of_nat (i2 mod 4 * 64 + i3)])"
      using bnd by (rule a2b_group)
    also have "\<dots> = Inr ((out @ [a, b, c]) @ rest)"
      unfolding j IH(5) by simp
    finally show ?thesis by simp
  qed
  show ?case
    apply (rule exI [where x = "?g @ body"])
    apply (rule exI [where x = p])
    apply (intro conjI allI)
        apply (rule e)
       apply (rule s)
      apply (rule IH(3))
     apply (rule l)
    apply (rule d)
    done
next
  case (2 a b)
  define i0 where "i0 = unat a div 4"
  define i1 where "i1 = unat a mod 4 * 16 + unat b div 16"
  define i2 where "i2 = unat b mod 16 * 4"
  have bnd: "i0 < 64" "i1 < 64" "i2 < 64"
    unfolding i0_def i1_def i2_def
    by (rule sextet_bounds)+
  have j: "i0 * 4 + i1 div 16 = unat a" "i1 mod 16 * 16 + i2 div 4 = unat b"
    unfolding i0_def i1_def i2_def
    by (rule sextet_join)+
  let ?g = "[uc i0, uc i1, uc i2]"
  have e: "urlsafe_b64encode [a, b] = ?g @ replicate 1 61"
    by (simp add: urlsafe_b64encode_def uc_def i0_def i1_def i2_def uc_61)
  have s: "\<forall>c \<in> set ?g. c \<noteq> 61 \<and> unat c < 128 \<and> urlsafe_char (unat c)"
    using bnd by (simp add: uc_props)
  have d: "a2b_base64 (map urlsafe_decode_translation (?g @ replicate 1 61)) 0 pads l out =
        Inr (out @ [a, b])" for pads l out
    using a2b_tail2 [OF bnd, of pads l out] unfolding j by simp
  have l: "(1::nat) \<le> 2" "(length ?g + 1) mod 4 = 0" by simp_all
  show ?case
    apply (rule exI [where x = ?g])
    apply (rule exI [where x = 1])
    apply (intro conjI allI)
        apply (rule e)
       apply (rule s)
      apply (rule l(1))
     apply (rule l(2))
    apply (rule d)
    done
next
  case (3 a)
  define i0 where "i0 = unat a div 4"
  define i1 where "i1 = unat a mod 4 * 16"
  have bnd: "i0 < 64" "i1 < 64"
    unfolding i0_def i1_def
    by (rule sextet_bounds)+
  have j: "i0 * 4 + i1 div 16 = unat a"
    unfolding i0_def i1_def
    by (rule sextet_join)+
  let ?g = "[uc i0, uc i1]"
  have e: "urlsafe_b64encode [a] = ?g @ replicate 2 61"
    by (simp add: urlsafe_b64encode_def uc_def i0_def i1_def uc_61 numeral_2_eq_2)
  have s: "\<forall>c \<in> set ?g. c \<noteq> 61 \<and> unat c < 128 \<and> urlsafe_char (unat c)"
    using bnd by (simp add: uc_props)
  have d: "a2b_base64 (map urlsafe_decode_translation (?g @ replicate 2 61)) 0 pads l out =
        Inr (out @ [a])" for pads l out
    using a2b_tail1 [OF bnd, of pads l out] unfolding j by simp
  have l: "(2::nat) \<le> 2" "(length ?g + 2) mod 4 = 0" by simp_all
  show ?case
    apply (rule exI [where x = ?g])
    apply (rule exI [where x = 2])
    apply (intro conjI allI)
        apply (rule e)
       apply (rule s)
      apply (rule l(1))
     apply (rule l(2))
    apply (rule d)
    done
next
  case 4
  have f: "urlsafe_b64encode [] = [] @ replicate 0 61"
    "\<forall>c \<in> set ([] :: bytes). c \<noteq> 61 \<and> unat c < 128 \<and> urlsafe_char (unat c)" "(0::nat) \<le> 2"
    "(length ([] :: bytes) + 0) mod 4 = 0"
    "\<And>pads l out. a2b_base64 (map urlsafe_decode_translation ([] @ replicate 0 61)) 0 pads l out =
        Inr (out @ [])"
    by (simp_all add: urlsafe_b64encode_def)
  show ?case
    apply (rule exI [where x = "[]"])
    apply (rule exI [where x = 0])
    apply (intro conjI allI)
        apply (rule f(1))
       apply (rule f(2))
      apply (rule f(3))
     apply (rule f(4))
    apply (rule f(5))
    done
qed

lemma rstrip_body:
  assumes "\<forall>c \<in> set body. c \<noteq> ch"
  shows "rstrip (body @ replicate p ch) ch = body"
proof -
  have "dropWhile (\<lambda>c. c = ch) (replicate p ch @ rev body) = dropWhile (\<lambda>c. c = ch) (rev body)"
    by (rule dropWhile_append2) simp
  also have "\<dots> = rev body"
    using assms by (cases "rev body") auto
  finally show ?thesis by (simp add: rstrip_def)
qed

lemma padding_needed:
  fixes n p :: nat
  assumes "p \<le> 2" "(n + p) mod 4 = 0"
  shows "(4 - n mod 4) mod 4 = p"
proof -
  define r where "r = n mod 4"
  have e: "(r + p) mod 4 = 0" using assms(2) by (simp add: r_def mod_add_left_eq)
  have "r < 4" by (simp add: r_def)
  then have "r = 0 \<or> r = 1 \<or> r = 2 \<or> r = 3" by arith
  moreover have "p = 0 \<or> p = 1 \<or> p = 2" using assms(1) by arith
  ultimately have "(4 - r) mod 4 = p" using e by (elim disjE) simp_all
  then show ?thesis by (simp add: r_def)
qed


lemma name_codec:
  "\<exists>name p. ascii_decode (urlsafe_b64encode bs) = Inr (name @ replicate p 61) \<and>
     rstrip (name @ replicate p 61) 61 = name \<and> (\<forall>c \<in> set name. urlsafe_char c) \<and>
     (4 - length name mod 4) mod 4 = p \<and>
     (\<exists>t. ascii_encode (name @ replicate p 61) = Inr t \<and> urlsafe_b64decode t = Inr bs)"
proof -
  from b64_structure [of bs] obtain body p where b0:
    "urlsafe_b64encode bs = body @ replicate p 61 \<and>
     (\<forall>c \<in> set body. c \<noteq> 61 \<and> unat c < 128 \<and> urlsafe_char (unat c)) \<and> p \<le> 2 \<and>
     (length body + p) mod 4 = 0 \<and>
     (\<forall>pads l out.
        a2b_base64 (map urlsafe_decode_translation (body @ replicate p 61)) 0 pads l out =
        Inr (out @ bs))"
    by (elim exE) (rule that)
  have b: "urlsafe_b64encode bs = body @ replicate p 61"
     "\<forall>c \<in> set body. c \<noteq> 61 \<and> unat c < 128 \<and> urlsafe_char (unat c)" "p \<le> 2"
     "(length body + p) mod 4 = 0"
     "\<And>pads l out.
        a2b_base64 (map urlsafe_decode_translation (body @ replicate p 61)) 0 pads l out =
        Inr (out @ bs)"
    using b0 by blast+
  let ?name = "map unat body"
  have s: "ascii_decode (urlsafe_b64encode bs) = Inr (?name @ replicate p 61)"
    using b(2) by (auto simp: ascii_decode_def b(1))
  have "\<forall>c \<in> set ?name. c \<noteq> 61"
    using b(2) by (auto simp: word_unat_eq_iff)
  then have r: "rstrip (?name @ replicate p 61) 61 = ?name" by (rule rstrip_body)
  have u: "\<forall>c \<in> set ?name. urlsafe_char c" using b(2) by simp
  have n: "(4 - length ?name mod 4) mod 4 = p"
    using b(3,4) by (intro padding_needed) simp_all
  have "map of_nat ?name = body" by (simp add: map_idI)
  then have t: "ascii_encode (?name @ replicate p 61) = Inr (body @ replicate p 61)"
    using b(2) by (auto simp: ascii_encode_def)
  have d: "urlsafe_b64decode (body @ replicate p 61) = Inr bs"
    using b(5) [of 0 0 "[]"] by (simp add: urlsafe_b64decode_def)
  show ?thesis
    apply (rule exI [where x = ?name])
    apply (rule exI [where x = p])
    apply (intro conjI)
        apply (rule s)
       apply (rule r)
      apply (rule u)
     apply (rule n)
    apply (rule exI [where x = "body @ replicate p 61"])
    apply (intro conjI)
     apply (rule t)
    apply (rule d)
    done
qed


subsection \<open>Writing into a tree\<close>




lemma prefix_butlast_iff: "p \<noteq> [] \<Longrightarrow> prefix q (butlast p) \<longleftrightarrow> strict_prefix q p"
proof -
  assume "p \<noteq> []"
  then obtain xs x where p: "p = xs @ [x]" by (cases p rule: rev_cases) auto
  show ?thesis unfolding p by (auto simp: strict_prefix_def)
qed



subsection \<open>Looking paths up\<close>

lemma not_File_Dir: "\<forall>data. n \<noteq> File data \<Longrightarrow> n = Dir"
  by (cases n) auto

lemma prefix_between:
  assumes "prefix cur q" and "prefix q (cur @ name # names)"
  shows "q = cur \<or> prefix (cur @ [name]) q"
proof -
  from assms(1) obtain r where r: "q = cur @ r" by (auto simp: prefix_def)
  with assms(2) have "prefix r (name # names)" by simp
  then show ?thesis using r by (cases r) auto
qed

lemma resolve_ok:
  assumes "[46, 46] \<notin> set names"
    and "\<forall>q. prefix cur q \<and> strict_prefix q (cur @ names) \<longrightarrow> is_dir fs q"
  shows "resolve fs cur names = Inr (cur @ names)"
  using assms
proof (induction names arbitrary: cur)
  case Nil
  show ?case by simp
next
  case (Cons name names)
  have d: "is_dir fs cur" using Cons.prems(2) by (auto simp: strict_prefix_def)
  have "\<forall>q. prefix (cur @ [name]) q \<and> strict_prefix q ((cur @ [name]) @ names) \<longrightarrow> is_dir fs q"
    using Cons.prems(2) by (auto dest: append_prefixD)
  moreover have n: "name \<noteq> [46, 46]" "[46, 46] \<notin> set names" using Cons.prems(1) by auto
  ultimately have "resolve fs (cur @ [name]) names = Inr ((cur @ [name]) @ names)"
    by (intro Cons.IH)
  then show ?case using d n by simp
qed

lemma resolve_Inr:
  assumes "[46, 46] \<notin> set names" and "resolve fs cur names = Inr r"
  shows "r = cur @ names \<and> (\<forall>q. prefix cur q \<and> strict_prefix q (cur @ names) \<longrightarrow> is_dir fs q)"
  using assms
proof (induction names arbitrary: cur)
  case Nil
  then show ?case by (auto simp: strict_prefix_def)
next
  case (Cons name names)
  have n: "name \<noteq> [46, 46]" "[46, 46] \<notin> set names" using Cons.prems(1) by auto
  have d: "is_dir fs cur" using Cons.prems(2) by (auto split: if_splits)
  then have "resolve fs (cur @ [name]) names = Inr r" using Cons.prems(2) n by simp
  from Cons.IH [OF n(2) this]
  have IH: "r = (cur @ [name]) @ names"
    "\<forall>q. prefix (cur @ [name]) q \<and> strict_prefix q ((cur @ [name]) @ names) \<longrightarrow> is_dir fs q"
    by auto
  have "is_dir fs q" if "prefix cur q" "strict_prefix q (cur @ name # names)" for q
  proof -
    have "prefix q (cur @ name # names)" using that(2) by (simp add: strict_prefix_def)
    then have "q = cur \<or> prefix (cur @ [name]) q" using that(1) by (intro prefix_between)
    then show ?thesis using d IH(2) that(2) by auto
  qed
  then show ?case using IH(1) by simp
qed

lemma resolve_Inl:
  assumes "[46, 46] \<notin> set names" and "resolve fs cur names = Inl e"
    and "\<forall>q. q \<noteq> [] \<and> prefix cur q \<and> strict_prefix q (cur @ names) \<longrightarrow>
           (\<forall>data. fs q \<noteq> Some (File data))"
  shows "e = FileNotFoundError"
  using assms
proof (induction names arbitrary: cur)
  case Nil
  then show ?case by simp
next
  case (Cons name names)
  have n: "name \<noteq> [46, 46]" "[46, 46] \<notin> set names" using Cons.prems(1) by auto
  show ?case
  proof (cases "is_dir fs cur")
    case False
    have "cur \<noteq> []" using False by (auto simp: is_dir_def)
    then have "\<forall>data. fs cur \<noteq> Some (File data)"
      using Cons.prems(3) by (auto simp: strict_prefix_def)
    then have "fs cur = None"
      using False by (cases "fs cur") (auto simp: is_dir_def dest: not_File_Dir)
    then show ?thesis using False Cons.prems(2) by simp
  next
    case True
    then have r: "resolve fs (cur @ [name]) names = Inl e" using Cons.prems(2) n by simp
    have "\<forall>q. q \<noteq> [] \<and> prefix (cur @ [name]) q \<and> strict_prefix q ((cur @ [name]) @ names) \<longrightarrow>
            (\<forall>data. fs q \<noteq> Some (File data))"
      using Cons.prems(3) by (auto dest: append_prefixD)
    with n(2) r show ?thesis by (intro Cons.IH)
  qed
qed

lemma resolve_cong:
  assumes "[46, 46] \<notin> set names"
    and "\<forall>q. prefix cur q \<and> strict_prefix q (cur @ names) \<longrightarrow> fs' q = fs q"
  shows "resolve fs' cur names = resolve fs cur names"
  using assms
proof (induction names arbitrary: cur)
  case Nil
  show ?case by simp
next
  case (Cons name names)
  have n: "name \<noteq> [46, 46]" "[46, 46] \<notin> set names" using Cons.prems(1) by auto
  have c: "fs' cur = fs cur" using Cons.prems(2) by (auto simp: strict_prefix_def)
  have "\<forall>q. prefix (cur @ [name]) q \<and> strict_prefix q ((cur @ [name]) @ names) \<longrightarrow> fs' q = fs q"
    using Cons.prems(2) by (auto dest: append_prefixD)
  with n(2) have "resolve fs' (cur @ [name]) names = resolve fs (cur @ [name]) names"
    by (intro Cons.IH)
  then show ?case using n c by (auto simp: is_dir_def)
qed

lemma path_exists_iff:
  assumes "[46, 46] \<notin> set p"
  shows "path_exists fs p \<longleftrightarrow> (\<forall>q. strict_prefix q p \<longrightarrow> is_dir fs q) \<and> (p = [] \<or> fs p \<noteq> None)"
proof (cases "resolve fs [] p")
  case (Inl e)
  have "\<not> (\<forall>q. strict_prefix q p \<longrightarrow> is_dir fs q)"
  proof
    assume "\<forall>q. strict_prefix q p \<longrightarrow> is_dir fs q"
    then have "resolve fs [] p = Inr ([] @ p)" using assms by (intro resolve_ok) simp_all
    with Inl show False by simp
  qed
  then show ?thesis using Inl by (simp add: path_exists_def)
next
  case (Inr r)
  from resolve_Inr [OF assms Inr] show ?thesis using Inr by (simp add: path_exists_def)
qed

lemma open_rb_iff:
  assumes "[46, 46] \<notin> set p"
  shows "open_rb fs p = Inr data \<longleftrightarrow>
         (\<forall>q. strict_prefix q p \<longrightarrow> is_dir fs q) \<and> p \<noteq> [] \<and> fs p = Some (File data)"
proof (cases "resolve fs [] p")
  case (Inl e)
  have "\<not> (\<forall>q. strict_prefix q p \<longrightarrow> is_dir fs q)"
  proof
    assume "\<forall>q. strict_prefix q p \<longrightarrow> is_dir fs q"
    then have "resolve fs [] p = Inr ([] @ p)" using assms by (intro resolve_ok) simp_all
    with Inl show False by simp
  qed
  then show ?thesis using Inl by (simp add: open_rb_def)
next
  case (Inr r)
  from resolve_Inr [OF assms Inr] show ?thesis using Inr
    by (auto simp: open_rb_def split: option.splits node.splits)
qed

lemma path_exists_cong:
  assumes "[46, 46] \<notin> set p" and "\<forall>q. prefix q p \<longrightarrow> fs' q = fs q"
  shows "path_exists fs' p = path_exists fs p"
proof -
  have "resolve fs' [] p = resolve fs [] p"
    using assms by (intro resolve_cong) (auto simp: strict_prefix_def)
  moreover have "resolve fs [] p = Inr r \<Longrightarrow> fs' r = fs r" for r
    using resolve_Inr [OF assms(1), of fs "[]" r] assms(2) by simp
  ultimately show ?thesis by (auto simp: path_exists_def split: sum.splits)
qed

lemma open_rb_cong:
  assumes "[46, 46] \<notin> set p" and "\<forall>q. prefix q p \<longrightarrow> fs' q = fs q"
  shows "open_rb fs' p = open_rb fs p"
proof -
  have "resolve fs' [] p = resolve fs [] p"
    using assms by (intro resolve_cong) (auto simp: strict_prefix_def)
  moreover have "resolve fs [] p = Inr r \<Longrightarrow> fs' r = fs r" for r
    using resolve_Inr [OF assms(1), of fs "[]" r] assms(2) by simp
  ultimately show ?thesis by (auto simp: open_rb_def split: sum.splits)
qed

subsection \<open>Making directories\<close>

lemma add_dirs_Nil: "add_dirs fs [] = fs"
  by (auto simp: add_dirs_def fun_eq_iff)

lemma mkdir_exist_ok_result:
  assumes "[46, 46] \<notin> set p"
    and "\<forall>q. q \<noteq> [] \<and> strict_prefix q p \<longrightarrow> fs q = Some Dir"
    and "p \<noteq> [] \<longrightarrow> (\<forall>data. fs p \<noteq> Some (File data))"
  shows "mkdir_exist_ok fs p = (None, add_dirs fs p)"
proof -
  have "\<forall>q. prefix [] q \<and> strict_prefix q ([] @ p) \<longrightarrow> is_dir fs q"
    using assms(2) by (auto simp: is_dir_def)
  with assms(1) have r: "resolve fs [] p = Inr ([] @ p)" by (rule resolve_ok)
  show ?thesis
  proof (cases "p = [] \<or> fs p \<noteq> None")
    case True
    then have d: "is_dir fs p" using assms(3)
      by (cases "fs p") (auto simp: is_dir_def dest: not_File_Dir)
    have "add_dirs fs p = fs"
      using assms(2) d by (auto simp: add_dirs_def fun_eq_iff is_dir_def strict_prefix_def)
    then show ?thesis using True r d by (auto simp: mkdir_exist_ok_def os_mkdir_def isdir_def)
  next
    case False
    have "add_dirs fs p = fs(p \<mapsto> Dir)"
      using assms(2) False by (auto simp: add_dirs_def fun_eq_iff strict_prefix_def)
    then show ?thesis using False r by (simp add: mkdir_exist_ok_def os_mkdir_def)
  qed
qed

lemma add_dirs_parent:
  assumes "\<forall>q. q \<noteq> [] \<and> prefix q (parent @ [name]) \<longrightarrow> (\<forall>data. fs q \<noteq> Some (File data))"
    and that: "[46, 46] \<notin> set (parent @ [name])"
  shows "mkdir_exist_ok (add_dirs fs parent) (parent @ [name]) = (None, add_dirs fs (parent @ [name]))"
proof -
  let ?fs1 = "add_dirs fs parent"
  have a: "\<forall>q. q \<noteq> [] \<and> strict_prefix q (parent @ [name]) \<longrightarrow> ?fs1 q = Some Dir"
  proof (intro allI impI)
    fix q assume q: "q \<noteq> [] \<and> strict_prefix q (parent @ [name])"
    then have p: "prefix q parent" by (auto simp: strict_prefix_def)
    then have "\<forall>data. fs q \<noteq> Some (File data)" using assms(1) q by auto
    then show "?fs1 q = Some Dir" using p q
      by (cases "fs q") (auto simp: add_dirs_def dest: not_File_Dir)
  qed
  have b: "parent @ [name] \<noteq> [] \<longrightarrow> (\<forall>data. ?fs1 (parent @ [name]) \<noteq> Some (File data))"
    using assms(1) by (auto simp: add_dirs_def)
  have "mkdir_exist_ok ?fs1 (parent @ [name]) = (None, add_dirs ?fs1 (parent @ [name]))"
    using that a b by (rule mkdir_exist_ok_result)
  moreover have "add_dirs ?fs1 (parent @ [name]) = add_dirs fs (parent @ [name])"
    by (auto simp: add_dirs_def fun_eq_iff)
  ultimately show ?thesis by simp
qed

lemma add_dirs_same:
  assumes "\<forall>q. q \<noteq> [] \<and> prefix q p \<longrightarrow> fs q \<noteq> None"
  shows "add_dirs fs p = fs"
  using assms by (auto simp: add_dirs_def fun_eq_iff)

lemma makedirs_rev_result:
  assumes "[46, 46] \<notin> set d"
    and "\<forall>q. q \<noteq> [] \<and> prefix q (rev d) \<longrightarrow> (\<forall>data. fs q \<noteq> Some (File data))"
  shows "makedirs_rev fs d = (None, add_dirs fs (rev d))"
  using assms
proof (induction d)
  case Nil
  have "mkdir_exist_ok fs [] = (None, add_dirs fs [])"
    by (rule mkdir_exist_ok_result) simp_all
  then show ?case by simp
next
  case (Cons tail head)
  have n: "[46, 46] \<notin> set head" "[46, 46] \<notin> set (rev head @ [tail])" using Cons.prems(1) by auto
  have nf: "\<forall>q. q \<noteq> [] \<and> prefix q (rev head @ [tail]) \<longrightarrow> (\<forall>data. fs q \<noteq> Some (File data))"
    using Cons.prems(2) by simp
  then have nf': "\<forall>q. q \<noteq> [] \<and> prefix q (rev head) \<longrightarrow> (\<forall>data. fs q \<noteq> Some (File data))"
    by auto
  have m: "mkdir_exist_ok (add_dirs fs (rev head)) (rev head @ [tail]) =
           (None, add_dirs fs (rev head @ [tail]))"
    using nf n(2) by (rule add_dirs_parent)
  show ?case
  proof (cases "path_exists fs (rev head)")
    case True
    have nd: "[46, 46] \<notin> set (rev head)" using n(1) by simp
    from True have e: "\<forall>q. strict_prefix q (rev head) \<longrightarrow> is_dir fs q"
      "rev head = [] \<or> fs (rev head) \<noteq> None"
      by (simp_all add: path_exists_iff [OF nd])
    have "\<forall>q. q \<noteq> [] \<and> prefix q (rev head) \<longrightarrow> fs q \<noteq> None"
      using e by (auto simp: is_dir_def prefix_order.le_less)
    then have "add_dirs fs (rev head) = fs" by (rule add_dirs_same)
    with m True show ?thesis by simp
  next
    case False
    have "makedirs_rev fs head = (None, add_dirs fs (rev head))"
      using n(1) nf' by (rule Cons.IH)
    with m False show ?thesis by simp
  qed
qed

lemma makedirs_result:
  assumes "[46, 46] \<notin> set d"
    and "\<forall>q. q \<noteq> [] \<and> prefix q d \<longrightarrow> (\<forall>data. fs q \<noteq> Some (File data))"
  shows "makedirs fs d = (None, add_dirs fs d)"
  using makedirs_rev_result [of "rev d" fs] assms by (simp add: makedirs_def)

lemma path_mkdir_rev_result:
  assumes "[46, 46] \<notin> set d"
    and "\<forall>q. q \<noteq> [] \<and> prefix q (rev d) \<longrightarrow> (\<forall>data. fs q \<noteq> Some (File data))"
  shows "path_mkdir_rev fs d = (None, add_dirs fs (rev d))"
  using assms
proof (induction d)
  case Nil
  have "mkdir_exist_ok fs [] = (None, add_dirs fs [])"
    by (rule mkdir_exist_ok_result) simp_all
  then show ?case by simp
next
  case (Cons name parent)
  let ?p = "rev parent @ [name]"
  have n: "[46, 46] \<notin> set parent" "[46, 46] \<notin> set ?p" using Cons.prems(1) by auto
  have nf: "\<forall>q. q \<noteq> [] \<and> prefix q ?p \<longrightarrow> (\<forall>data. fs q \<noteq> Some (File data))"
    using Cons.prems(2) by simp
  then have nf': "\<forall>q. q \<noteq> [] \<and> prefix q (rev parent) \<longrightarrow> (\<forall>data. fs q \<noteq> Some (File data))"
    by auto
  have nfp: "?p \<noteq> [] \<longrightarrow> (\<forall>data. fs ?p \<noteq> Some (File data))" using nf by auto
  have m: "mkdir_exist_ok (add_dirs fs (rev parent)) ?p = (None, add_dirs fs ?p)"
    using nf n(2) by (rule add_dirs_parent)
  have IH: "path_mkdir_rev fs parent = (None, add_dirs fs (rev parent))"
    using n(1) nf' by (rule Cons.IH)
  show ?case
  proof (cases "resolve fs [] ?p")
    case (Inl e)
    have "\<forall>q. q \<noteq> [] \<and> prefix [] q \<and> strict_prefix q ([] @ ?p) \<longrightarrow>
            (\<forall>data. fs q \<noteq> Some (File data))"
      using nf by (auto simp: strict_prefix_def)
    with n(2) Inl have "e = FileNotFoundError" by (rule resolve_Inl)
    then have "os_mkdir fs ?p = Inl FileNotFoundError" using Inl by (simp add: os_mkdir_def)
    with IH m show ?thesis by simp
  next
    case (Inr r)
    from resolve_Inr [OF n(2) Inr]
    have r: "r = ?p" "\<forall>q. strict_prefix q ?p \<longrightarrow> is_dir fs q" by auto
    have sd: "\<forall>q. q \<noteq> [] \<and> strict_prefix q ?p \<longrightarrow> fs q = Some Dir"
      using r(2) by (auto simp: is_dir_def)
    have res: "mkdir_exist_ok fs ?p = (None, add_dirs fs ?p)"
      using n(2) sd nfp by (rule mkdir_exist_ok_result)
    show ?thesis
    proof (cases "fs ?p")
      case None
      then have "os_mkdir fs ?p = Inr (fs(?p \<mapsto> Dir))" using Inr r(1) by (simp add: os_mkdir_def)
      then have "path_mkdir_rev fs (name # parent) = (None, fs(?p \<mapsto> Dir))" by simp
      moreover have "add_dirs fs ?p = fs(?p \<mapsto> Dir)"
        using sd None by (auto simp: add_dirs_def fun_eq_iff strict_prefix_def)
      ultimately show ?thesis by (simp only: rev.simps)
    next
      case (Some nd)
      then have d: "fs ?p = Some Dir" using nfp by (cases nd) auto
      then have o: "os_mkdir fs ?p = Inl FileExistsError" using Inr r(1) by (simp add: os_mkdir_def)
      have i: "isdir fs ?p" using Inr r(1) d by (simp add: isdir_def is_dir_def)
      have "add_dirs fs ?p = fs"
        using sd d by (auto simp: add_dirs_def fun_eq_iff strict_prefix_def)
      then show ?thesis using o i by simp
    qed
  qed
qed

subsection \<open>The restore loop\<close>

lemma joinpath_plain: "plain s \<Longrightarrow> joinpath base s = base @ parse_path s"
  by (auto simp: joinpath_def plain_def)

lemma joinpath_dots:
  assumes "[46, 46] \<notin> set base" and "plain s"
  shows "[46, 46] \<notin> set (joinpath base s)"
  using assms by (auto simp: joinpath_def plain_def)

lemma apart_prefix:
  assumes "\<not> prefix bp rp" and "\<not> prefix rp bp"
    and "prefix q (bp @ ks)" and "prefix q (rp @ vs)"
  shows "strict_prefix q bp \<and> strict_prefix q rp"
proof -
  have a: "prefix q bp \<or> prefix bp q" using assms(3) by (auto simp: prefix_append)
  have b: "prefix q rp \<or> prefix rp q" using assms(4) by (auto simp: prefix_append)
  have c: "\<not> (prefix bp q \<and> prefix rp q)"
    using assms(1,2) prefix_same_cases [of bp q rp] by blast
  have d: "\<not> (prefix q bp \<and> prefix rp q)" using assms(2) by (auto intro: prefix_order.trans)
  have e: "\<not> (prefix bp q \<and> prefix q rp)" using assms(1) by (auto intro: prefix_order.trans)
  from a b c d e have f: "prefix q bp" "prefix q rp" by blast+
  have "q \<noteq> bp" "q \<noteq> rp" using f assms(1,2) by auto
  with f show ?thesis by (simp add: strict_prefix_def)
qed

lemma put_file_backup:
  assumes "\<not> prefix bp rp" and "\<not> prefix rp bp"
    and "\<forall>q. q \<noteq> [] \<and> prefix q rp \<longrightarrow> fs q = Some Dir"
    and "prefix q (bp @ ks)"
  shows "put_file fs (rp @ vs) data q = fs q"
proof (cases "prefix q (rp @ vs)")
  case True
  from apart_prefix [OF assms(1,2,4) True] have s: "strict_prefix q rp" by simp
  then have "q \<noteq> rp @ vs" by (auto simp: strict_prefix_def)
  moreover have "q \<noteq> [] \<longrightarrow> fs q = Some Dir" using s assms(3) by (simp add: strict_prefix_def)
  ultimately show ?thesis by (simp add: put_file_def)
next
  case False
  then show ?thesis by (auto simp: put_file_def strict_prefix_def)
qed

lemma add_dirs_backup:
  assumes "\<not> prefix bp rp" and "\<not> prefix rp bp"
    and "\<forall>q. q \<noteq> [] \<and> strict_prefix q bp \<longrightarrow> fs q \<noteq> None"
    and "prefix q (bp @ ks)"
  shows "add_dirs fs rp q = fs q"
proof (cases "q \<noteq> [] \<and> prefix q rp")
  case True
  then have "prefix q (rp @ [])" by simp
  from apart_prefix [OF assms(1,2,4) this] have "strict_prefix q bp" by simp
  then have "fs q \<noteq> None" using True assms(3) by simp
  then show ?thesis by (auto simp: add_dirs_def)
next
  case False
  then show ?thesis by (auto simp: add_dirs_def)
qed

lemma backup_lookups:
  assumes "[46, 46] \<notin> set bp" and "plain (fst item)"
    and "\<forall>q ks. prefix q (bp @ ks) \<longrightarrow> fs' q = fs q"
  shows "present fs' bp item = present fs bp item \<and>
         plaintext_of aes key fs' bp item = plaintext_of aes key fs bp item"
proof -
  let ?p = "joinpath bp (fst item)"
  have d: "[46, 46] \<notin> set ?p" using assms(1,2) by (rule joinpath_dots)
  have "?p = bp @ parse_path (fst item)" using assms(2) by (rule joinpath_plain)
  then have f: "\<forall>q. prefix q ?p \<longrightarrow> fs' q = fs q" using assms(3) by auto
  have "path_exists fs' ?p = path_exists fs ?p" using d f by (rule path_exists_cong)
  moreover have "open_rb fs' ?p = open_rb fs ?p" using d f by (rule open_rb_cong)
  ultimately show ?thesis by (simp add: present_def plaintext_of_def)
qed

lemma decrypt_file_ok:
  assumes "[46, 46] \<notin> set p" and "open_rb fs input_path = Inr blob"
    and "decrypt_data aes key blob = Inr data" and "can_put fs p"
  shows "decrypt_file aes key fs input_path p = (None, put_file fs p data)"
proof -
  have p: "p \<noteq> []" and nd: "fs p \<noteq> Some Dir"
    and nf: "\<forall>q. q \<noteq> [] \<and> strict_prefix q p \<longrightarrow> (\<forall>data. fs q \<noteq> Some (File data))"
    using assms(4) by (auto simp: can_put_def)
  let ?fs1 = "add_dirs fs (butlast p)"
  have "[46, 46] \<notin> set (butlast p)" using assms(1) by (auto dest: in_set_butlastD)
  moreover have "\<forall>q. q \<noteq> [] \<and> prefix q (butlast p) \<longrightarrow> (\<forall>data. fs q \<noteq> Some (File data))"
    using nf p by (simp add: prefix_butlast_iff)
  ultimately have m: "makedirs fs (butlast p) = (None, ?fs1)" by (rule makedirs_result)
  have "\<forall>q. prefix [] q \<and> strict_prefix q ([] @ p) \<longrightarrow> is_dir ?fs1 q"
  proof (intro allI impI)
    fix q assume q: "prefix [] q \<and> strict_prefix q ([] @ p)"
    show "is_dir ?fs1 q"
    proof (cases "q = []")
      case True
      then show ?thesis by (simp add: is_dir_def)
    next
      case False
      then have "\<forall>data. fs q \<noteq> Some (File data)" using nf q by simp
      moreover have "prefix q (butlast p)" using q p by (simp add: prefix_butlast_iff)
      ultimately have "?fs1 q = Some Dir" using False
        by (cases "fs q") (auto simp: add_dirs_def dest: not_File_Dir)
      then show ?thesis by (simp add: is_dir_def)
    qed
  qed
  with assms(1) have r: "resolve ?fs1 [] p = Inr ([] @ p)" by (rule resolve_ok)
  have "\<not> prefix p (butlast p)" using p by (simp add: prefix_butlast_iff)
  then have "?fs1 p = fs p" by (simp add: add_dirs_def)
  then have w: "open_wb ?fs1 p data = Inr (?fs1(p \<mapsto> File data))"
    using r p nd by (simp add: open_wb_def)
  have "?fs1(p \<mapsto> File data) = put_file fs p data"
  proof
    fix q
    show "(?fs1(p \<mapsto> File data)) q = put_file fs p data q"
    proof (cases "q \<noteq> [] \<and> strict_prefix q p")
      case True
      then have "\<forall>data. fs q \<noteq> Some (File data)" using nf by simp
      moreover have "prefix q (butlast p)" using True p by (simp add: prefix_butlast_iff)
      ultimately have "?fs1 q = Some Dir" using True
        by (cases "fs q") (auto simp: add_dirs_def dest: not_File_Dir)
      then show ?thesis using True by (auto simp: put_file_def)
    next
      case False
      then have "q \<noteq> p \<Longrightarrow> ?fs1 q = fs q" using p
        by (auto simp: add_dirs_def prefix_butlast_iff)
      then show ?thesis using False by (auto simp: put_file_def)
    qed
  qed
  with w m assms(2,3) show ?thesis by (simp add: decrypt_file_def)
qed

lemma can_put_put_file:
  assumes "can_put t q" and "\<not> strict_prefix q p" and "\<not> strict_prefix p q"
  shows "can_put (put_file t p data) q"
  using assms by (auto simp: can_put_def put_file_def)

lemma restore_files_spec:
  assumes dd: "[46, 46] \<notin> set bp" "[46, 46] \<notin> set rp"
    and apart: "\<not> prefix bp rp" "\<not> prefix rp bp"
    and rpd: "\<forall>q. q \<noteq> [] \<and> prefix q rp \<longrightarrow> fs q = Some Dir"
    and pl: "\<forall>item \<in> set items. plain (fst item) \<and> plain (snd item)"
    and pr: "\<forall>item \<in> set items. present fs bp item = pres item \<and>
               plaintext_of aes key fs bp item = pt item"
    and dec: "\<forall>item \<in> set items. pres item \<longrightarrow> (\<exists>data. pt item = Inr data)"
    and cp: "\<forall>item \<in> set items. pres item \<longrightarrow> can_put fs (target rp item)"
    and np: "\<forall>item \<in> set items. \<forall>item' \<in> set items. pres item \<and> pres item' \<longrightarrow>
               \<not> strict_prefix (target rp item) (target rp item')"
  shows "\<exists>fs'. restore_files aes key bp rp items fs n w =
           (Inr (n + length (filter pres items)), fs',
            w @ map fst (filter (\<lambda>item. \<not> pres item) items)) \<and>
         (\<forall>q. (\<forall>item \<in> set items. pres item \<longrightarrow>
                 target rp item \<noteq> q \<and> \<not> strict_prefix q (target rp item)) \<longrightarrow> fs' q = fs q) \<and>
         (\<forall>item \<in> set items. pres item \<longrightarrow>
            (\<exists>item' \<in> set items. \<exists>data. pres item' \<and> target rp item' = target rp item \<and>
               pt item' = Inr data \<and> fs' (target rp item) = Some (File data)))"
  using rpd pl pr dec cp np
proof (induction items arbitrary: fs n w)
  case Nil
  then show ?case by simp
next
  case (Cons item items)
  obtain e orig where item: "item = (e, orig)" by (cases item)
  have pli: "plain e" "plain orig" using Cons.prems(2) item by auto
  have pri: "present fs bp item = pres item" "plaintext_of aes key fs bp item = pt item"
    using Cons.prems(3) by auto
  show ?case
  proof (cases "pres item")
    case False
    have step: "restore_files aes key bp rp (item # items) fs n w =
                restore_files aes key bp rp items fs n (w @ [e])"
      using False pri(1) by (simp add: item present_def Let_def)
    have "\<exists>fs'. restore_files aes key bp rp items fs n (w @ [e]) =
           (Inr (n + length (filter pres items)), fs',
            (w @ [e]) @ map fst (filter (\<lambda>item. \<not> pres item) items)) \<and>
         (\<forall>q. (\<forall>item \<in> set items. pres item \<longrightarrow>
                 target rp item \<noteq> q \<and> \<not> strict_prefix q (target rp item)) \<longrightarrow> fs' q = fs q) \<and>
         (\<forall>item \<in> set items. pres item \<longrightarrow>
            (\<exists>item' \<in> set items. \<exists>data. pres item' \<and> target rp item' = target rp item \<and>
               pt item' = Inr data \<and> fs' (target rp item) = Some (File data)))"
      using Cons.prems by (intro Cons.IH) simp_all
    then obtain fs' where IH: "restore_files aes key bp rp items fs n (w @ [e]) =
           (Inr (n + length (filter pres items)), fs',
            (w @ [e]) @ map fst (filter (\<lambda>item. \<not> pres item) items))"
         "\<forall>q. (\<forall>item \<in> set items. pres item \<longrightarrow>
                 target rp item \<noteq> q \<and> \<not> strict_prefix q (target rp item)) \<longrightarrow> fs' q = fs q"
         "\<forall>item \<in> set items. pres item \<longrightarrow>
            (\<exists>item' \<in> set items. \<exists>data. pres item' \<and> target rp item' = target rp item \<and>
               pt item' = Inr data \<and> fs' (target rp item) = Some (File data))"
      by (elim exE conjE)
    have r: "restore_files aes key bp rp (item # items) fs n w =
           (Inr (n + length (filter pres (item # items))), fs',
            w @ map fst (filter (\<lambda>item. \<not> pres item) (item # items)))"
      using step IH(1) False by (simp add: item)
    have f: "\<forall>q. (\<forall>i \<in> set (item # items). pres i \<longrightarrow>
                 target rp i \<noteq> q \<and> \<not> strict_prefix q (target rp i)) \<longrightarrow> fs' q = fs q"
      using IH(2) by simp
    have c: "\<forall>i \<in> set (item # items). pres i \<longrightarrow>
            (\<exists>item' \<in> set (item # items). \<exists>data. pres item' \<and> target rp item' = target rp i \<and>
               pt item' = Inr data \<and> fs' (target rp i) = Some (File data))"
      using IH(3) False by auto
    show ?thesis
      apply (rule exI [where x = fs'])
      apply (intro conjI)
        apply (rule r)
       apply (rule f)
      apply (rule c)
      done
  next
    case True
    let ?t = "target rp item"
    have t: "?t = rp @ parse_path orig" using pli(2) by (simp add: target_def item joinpath_plain)
    have td: "[46, 46] \<notin> set ?t" unfolding target_def using dd(2) pli(2)
      by (simp add: item joinpath_dots)
    obtain data where data: "pt item = Inr data" using True Cons.prems(4) by auto
    then have "plaintext_of aes key fs bp item = Inr data" using pri(2) by simp
    then obtain blob where b: "open_rb fs (joinpath bp e) = Inr blob"
      "decrypt_data aes key blob = Inr data"
      by (auto simp: plaintext_of_def item split: sum.splits)
    have cpi: "can_put fs ?t" using True Cons.prems(5) by auto
    define fs1 where "fs1 = put_file fs ?t data"
    have d: "decrypt_file aes key fs (joinpath bp e) ?t = (None, fs1)"
      unfolding fs1_def using td b cpi by (rule decrypt_file_ok)
    have ex: "path_exists fs (joinpath bp e)" using True pri(1) by (simp add: present_def item)
    have step: "restore_files aes key bp rp (item # items) fs n w =
                restore_files aes key bp rp items fs1 (n + 1) w"
      using ex d by (simp add: item target_def Let_def)
    have rp: "rp \<noteq> []" using apart(2) by auto
    then have "fs rp = Some Dir" using Cons.prems(1) by simp
    then have "?t \<noteq> rp" using cpi by (auto simp: can_put_def)
    then have below: "strict_prefix rp ?t" using t by (simp add: strict_prefix_def)
    have frame: "\<forall>q ks. prefix q (bp @ ks) \<longrightarrow> fs1 q = fs q"
    proof (intro allI impI)
      fix q ks assume "prefix q (bp @ ks)"
      with apart Cons.prems(1) show "fs1 q = fs q"
        unfolding fs1_def t by (rule put_file_backup)
    qed
    have rpd1: "\<forall>q. q \<noteq> [] \<and> prefix q rp \<longrightarrow> fs1 q = Some Dir"
      using below by (auto simp: fs1_def put_file_def strict_prefix_def intro: prefix_order.trans)
    have pl1: "\<forall>item \<in> set items. plain (fst item) \<and> plain (snd item)"
      using Cons.prems(2) by simp
    have pr1: "\<forall>i \<in> set items. present fs1 bp i = pres i \<and>
                 plaintext_of aes key fs1 bp i = pt i"
    proof
      fix i assume i: "i \<in> set items"
      then have "plain (fst i)" using pl1 by simp
      with dd(1) have "present fs1 bp i = present fs bp i \<and>
         plaintext_of aes key fs1 bp i = plaintext_of aes key fs bp i"
        using frame by (rule backup_lookups)
      then show "present fs1 bp i = pres i \<and> plaintext_of aes key fs1 bp i = pt i"
        using Cons.prems(3) i by simp
    qed
    have dec1: "\<forall>item \<in> set items. pres item \<longrightarrow> (\<exists>data. pt item = Inr data)"
      using Cons.prems(4) by simp
    have cp1: "\<forall>i \<in> set items. pres i \<longrightarrow> can_put fs1 (target rp i)"
    proof (intro ballI impI)
      fix i assume i: "i \<in> set items" "pres i"
      have "can_put fs (target rp i)" using i Cons.prems(5) by auto
      moreover have "\<not> strict_prefix (target rp i) ?t" "\<not> strict_prefix ?t (target rp i)"
        using i True Cons.prems(6) by auto
      ultimately show "can_put fs1 (target rp i)"
        unfolding fs1_def by (rule can_put_put_file)
    qed
    have np1: "\<forall>item \<in> set items. \<forall>item' \<in> set items. pres item \<and> pres item' \<longrightarrow>
               \<not> strict_prefix (target rp item) (target rp item')"
      using Cons.prems(6) by simp
    have "\<exists>fs'. restore_files aes key bp rp items fs1 (n + 1) w =
           (Inr (n + 1 + length (filter pres items)), fs',
            w @ map fst (filter (\<lambda>item. \<not> pres item) items)) \<and>
         (\<forall>q. (\<forall>item \<in> set items. pres item \<longrightarrow>
                 target rp item \<noteq> q \<and> \<not> strict_prefix q (target rp item)) \<longrightarrow> fs' q = fs1 q) \<and>
         (\<forall>item \<in> set items. pres item \<longrightarrow>
            (\<exists>item' \<in> set items. \<exists>data. pres item' \<and> target rp item' = target rp item \<and>
               pt item' = Inr data \<and> fs' (target rp item) = Some (File data)))"
      using rpd1 pl1 pr1 dec1 cp1 np1 by (rule Cons.IH)
    then obtain fs' where IH: "restore_files aes key bp rp items fs1 (n + 1) w =
           (Inr (n + 1 + length (filter pres items)), fs',
            w @ map fst (filter (\<lambda>item. \<not> pres item) items))"
         "\<forall>q. (\<forall>item \<in> set items. pres item \<longrightarrow>
                 target rp item \<noteq> q \<and> \<not> strict_prefix q (target rp item)) \<longrightarrow> fs' q = fs1 q"
         "\<forall>item \<in> set items. pres item \<longrightarrow>
            (\<exists>item' \<in> set items. \<exists>data. pres item' \<and> target rp item' = target rp item \<and>
               pt item' = Inr data \<and> fs' (target rp item) = Some (File data))"
      by (elim exE conjE)
    have r: "restore_files aes key bp rp (item # items) fs n w =
           (Inr (n + length (filter pres (item # items))), fs',
            w @ map fst (filter (\<lambda>item. \<not> pres item) (item # items)))"
      using step IH(1) True by simp
    have f: "\<forall>q. (\<forall>i \<in> set (item # items). pres i \<longrightarrow>
                 target rp i \<noteq> q \<and> \<not> strict_prefix q (target rp i)) \<longrightarrow> fs' q = fs q"
    proof (intro allI impI)
      fix q assume q: "\<forall>i \<in> set (item # items). pres i \<longrightarrow>
                 target rp i \<noteq> q \<and> \<not> strict_prefix q (target rp i)"
      then have "fs' q = fs1 q" using IH(2) by auto
      moreover have "fs1 q = fs q"
        using q True by (auto simp: fs1_def put_file_def)
      ultimately show "fs' q = fs q" by simp
    qed
    have c: "\<forall>i \<in> set (item # items). pres i \<longrightarrow>
            (\<exists>item' \<in> set (item # items). \<exists>data. pres item' \<and> target rp item' = target rp i \<and>
               pt item' = Inr data \<and> fs' (target rp i) = Some (File data))"
    proof (intro ballI impI)
      fix i assume i: "i \<in> set (item # items)" "pres i"
      show "\<exists>item' \<in> set (item # items). \<exists>data. pres item' \<and> target rp item' = target rp i \<and>
               pt item' = Inr data \<and> fs' (target rp i) = Some (File data)"
      proof (cases "\<exists>j \<in> set items. pres j \<and> target rp j = target rp i")
        case True
        then obtain j where j: "j \<in> set items" "pres j" "target rp j = target rp i" by blast
        from IH(3) j obtain item' data' where "item' \<in> set items" "pres item'"
          "target rp item' = target rp j" "pt item' = Inr data'"
          "fs' (target rp j) = Some (File data')" by blast
        then show ?thesis using j(3) by auto
      next
        case False
        then have ii: "i = item" using i by auto
        have "\<forall>j \<in> set items. pres j \<longrightarrow>
                 target rp j \<noteq> ?t \<and> \<not> strict_prefix ?t (target rp j)"
          using False ii \<open>pres item\<close> Cons.prems(6) by auto
        then have "fs' ?t = fs1 ?t" using IH(2) by blast
        also have "\<dots> = Some (File data)" by (simp add: fs1_def put_file_def)
        finally show ?thesis using ii data \<open>pres item\<close> by auto
      qed
    qed
    show ?thesis
      apply (rule exI [where x = fs'])
      apply (intro conjI)
        apply (rule r)
       apply (rule f)
      apply (rule c)
      done
  qed
qed

subsection \<open>The blob written by \<^verbatim>\<open>encrypt_data\<close>\<close>

lemma leftover_pkcs7_pad: "leftover (pkcs7_pad data) = []"
  by (simp add: leftover_Nil_iff pkcs7_pad_length)

lemma length_urandom: "length (fst (urandom n src)) = n"
  by (simp add: urandom_def)

lemma encrypt_data_eq:
  "encrypt_data aes key data src =
     (Inr (fst (urandom 16 src) @
           cbc_encrypt_blocks aes key (fst (urandom 16 src)) (blocks (pkcs7_pad data))),
      snd (urandom 16 src))"
  by (simp add: encrypt_data_def cbc_encrypt_def leftover_pkcs7_pad urandom_def)

lemma length_ciphertext:
  assumes "block_cipher_ok aes key" "length iv = 16"
  shows "length (cbc_encrypt_blocks aes key iv (blocks (pkcs7_pad data))) =
         16 * (length data div 16 + 1)"
proof -
  have "\<forall>p \<in> set (blocks (pkcs7_pad data)). length p = 16"
    by (simp add: blocks_length)
  then have "length (cbc_encrypt_blocks aes key iv (blocks (pkcs7_pad data))) =
             16 * length (blocks (pkcs7_pad data))"
    using assms by (rule cbc_encrypt_blocks_length [rotated 2])
  then show ?thesis by (simp add: length_blocks pkcs7_pad_length_eq)
qed

lemma decrypt_data_blob:
  assumes "length iv = 16" "length ct mod 16 = 0"
  shows "decrypt_data aes key (iv @ ct) = pkcs7_unpad (cbc_decrypt_blocks aes key iv (blocks ct))"
  using assms by (simp add: decrypt_data_def cbc_decrypt_def leftover_Nil_iff)

lemma decrypt_encrypt_blob:
  assumes "block_cipher_ok aes key" "length iv = 16"
  shows "decrypt_data aes key (iv @ cbc_encrypt_blocks aes key iv (blocks (pkcs7_pad data))) = Inr data"
proof -
  let ?ps = "blocks (pkcs7_pad data)"
  have len: "\<forall>p \<in> set ?ps. length p = 16" by (simp add: blocks_length)
  have "length (cbc_encrypt_blocks aes key iv ?ps) mod 16 = 0"
    using length_ciphertext [OF assms, of data] by simp
  then have "decrypt_data aes key (iv @ cbc_encrypt_blocks aes key iv ?ps) =
             pkcs7_unpad (cbc_decrypt_blocks aes key iv (blocks (cbc_encrypt_blocks aes key iv ?ps)))"
    using assms(2) by (rule decrypt_data_blob [rotated])
  also have "\<dots> = pkcs7_unpad (concat ?ps)"
    using cbc_blocks_roundtrip [OF assms len] by simp
  also have "\<dots> = Inr data"
    by (simp add: concat_blocks pkcs7_pad_length pkcs7_roundtrip)
  finally show ?thesis .
qed

lemma shift_cipher_ok: "block_cipher_ok shift_cipher key"
  by (simp add: block_cipher_ok_def shift_cipher_def comp_def)

lemma take_kdf_ok: "kdf_length_ok take_kdf"
  by (auto simp: kdf_length_ok_def take_kdf_def min_def)

text \<open>
  C7. For every plaintext, the empty one included, \<^verbatim>\<open>encrypt_data\<close> raises nothing
  and returns the 16 bytes drawn from the random source followed by the CBC ciphertext of
  the padded plaintext; the blob is at least 16 bytes long, its length minus 16 is a
  multiple of 16, and for the empty plaintext the ciphertext is the encryption of one block
  that consists of sixteen padding bytes of value 16.
\<close>

theorem encrypt_data_layout:
  assumes "block_cipher_ok aes key"
  shows "\<exists>iv ct. fst (encrypt_data aes key data src) = Inr (iv @ ct) \<and>
           iv = fst (urandom 16 src) \<and> length iv = 16 \<and>
           ct = cbc_encrypt_blocks aes key iv (blocks (pkcs7_pad data)) \<and>
           length ct = 16 * (length data div 16 + 1) \<and>
           16 \<le> length (iv @ ct) \<and> (length (iv @ ct) - 16) mod 16 = 0 \<and>
           (data = [] \<longrightarrow>
              pkcs7_pad data = replicate 16 16 \<and> length ct = 16 \<and>
              ct = encrypt_block aes key (xor_bytes iv (replicate 16 16)))"
proof -
  define iv where "iv = fst (urandom 16 src)"
  define ct where "ct = cbc_encrypt_blocks aes key iv (blocks (pkcs7_pad data))"
  have iv: "length iv = 16" by (simp add: iv_def length_urandom)
  have ct: "length ct = 16 * (length data div 16 + 1)"
    unfolding ct_def using assms iv by (rule length_ciphertext)
  have e: "fst (encrypt_data aes key data src) = Inr (iv @ ct)"
    by (simp add: encrypt_data_eq iv_def ct_def)
  have empty: "pkcs7_pad data = replicate 16 16 \<and> length ct = 16 \<and>
               ct = encrypt_block aes key (xor_bytes iv (replicate 16 16))" if "data = []"
  proof -
    have p: "pkcs7_pad data = replicate 16 16" using that by (simp add: pkcs7_pad_def)
    have "blocks (replicate 16 16 @ []) = [replicate 16 (16 :: byte)]"
      by (subst blocks_append) (simp_all add: blocks_Nil)
    then have "ct = encrypt_block aes key (xor_bytes iv (replicate 16 16))"
      by (simp add: ct_def p)
    with p ct that show ?thesis by simp
  qed
  have l: "16 \<le> length (iv @ ct)" "(length (iv @ ct) - 16) mod 16 = 0"
    using iv ct by simp_all
  have all: "fst (encrypt_data aes key data src) = Inr (iv @ ct) \<and>
           iv = fst (urandom 16 src) \<and> length iv = 16 \<and>
           ct = cbc_encrypt_blocks aes key iv (blocks (pkcs7_pad data)) \<and>
           length ct = 16 * (length data div 16 + 1) \<and>
           16 \<le> length (iv @ ct) \<and> (length (iv @ ct) - 16) mod 16 = 0 \<and>
           (data = [] \<longrightarrow>
              pkcs7_pad data = replicate 16 16 \<and> length ct = 16 \<and>
              ct = encrypt_block aes key (xor_bytes iv (replicate 16 16)))"
    using e iv ct empty iv_def ct_def l by blast
  show ?thesis by (rule exI [where x = iv], rule exI [where x = ct], rule all)
qed

theorem encrypt_data_layout_witness:
  "block_cipher_ok shift_cipher (replicate 32 7) \<and>
   (\<exists>iv ct. fst (encrypt_data shift_cipher (replicate 32 7) [] count_entropy) = Inr (iv @ ct) \<and>
           iv = fst (urandom 16 count_entropy) \<and> length iv = 16 \<and>
           ct = cbc_encrypt_blocks shift_cipher (replicate 32 7) iv (blocks (pkcs7_pad [])) \<and>
           length ct = 16 * (length ([] :: bytes) div 16 + 1) \<and>
           16 \<le> length (iv @ ct) \<and> (length (iv @ ct) - 16) mod 16 = 0 \<and>
           (([] :: bytes) = [] \<longrightarrow>
              pkcs7_pad [] = replicate 16 16 \<and> length ct = 16 \<and>
              ct = encrypt_block shift_cipher (replicate 32 7) (xor_bytes iv (replicate 16 16))))"
  using encrypt_data_layout [OF shift_cipher_ok, of "replicate 32 7" "[]" count_entropy]
    shift_cipher_ok [of "replicate 32 7"]
  by blast

text \<open>
  C4, as the code has it. \<^verbatim>\<open>decrypt_data\<close> raises on an input shorter than 16 bytes
  (the cipher refuses the short IV) and on an input whose remainder after the first 16
  bytes is not a multiple of 16 (the cipher context refuses the incomplete block). The
  scripts define no exception classes of their own: both failures are the library's
  \<^verbatim>\<open>ValueError\<close>, the class that invalid padding raises too, and the three differ in
  their message only. Invalid padding is raised only on an input of at least 16 bytes with
  a remainder of whole blocks.
\<close>

theorem decrypt_data_malformed:
  "(length blob < 16 \<longrightarrow> decrypt_data aes key blob = Inl (InvalidIVSize (length blob))) \<and>
   (16 \<le> length blob \<and> length (drop 16 blob) mod 16 \<noteq> 0 \<longrightarrow>
      decrypt_data aes key blob = Inl NotBlockMultiple) \<and>
   (decrypt_data aes key blob = Inl InvalidPaddingBytes \<longrightarrow>
      16 \<le> length blob \<and> length (drop 16 blob) mod 16 = 0) \<and>
   exception_class (InvalidIVSize (length blob)) = ''ValueError'' \<and>
   exception_class NotBlockMultiple = ''ValueError'' \<and>
   exception_class InvalidPaddingBytes = ''ValueError'' \<and>
   InvalidIVSize (length blob) \<noteq> InvalidPaddingBytes \<and> NotBlockMultiple \<noteq> InvalidPaddingBytes"
proof (intro conjI impI)
  assume "length blob < 16"
  then show "decrypt_data aes key blob = Inl (InvalidIVSize (length blob))"
    by (simp add: decrypt_data_def cbc_decrypt_def)
next
  assume "16 \<le> length blob \<and> length (drop 16 blob) mod 16 \<noteq> 0"
  then show "decrypt_data aes key blob = Inl NotBlockMultiple"
    by (simp add: decrypt_data_def cbc_decrypt_def leftover_Nil_iff)
next
  assume p: "decrypt_data aes key blob = Inl InvalidPaddingBytes"
  show "16 \<le> length blob"
  proof (rule ccontr)
    assume "\<not> 16 \<le> length blob"
    then have "decrypt_data aes key blob = Inl (InvalidIVSize (length blob))"
      by (simp add: decrypt_data_def cbc_decrypt_def)
    with p show False by simp
  qed
  then show "length (drop 16 blob) mod 16 = 0"
    using p by (auto simp: decrypt_data_def cbc_decrypt_def leftover_Nil_iff split: if_splits)
qed simp_all

theorem decrypt_data_malformed_witness:
  "decrypt_data shift_cipher (replicate 32 7) [1, 2, 3] = Inl (InvalidIVSize 3) \<and>
   decrypt_data shift_cipher (replicate 32 7) (replicate 16 0 @ [1, 2, 3]) = Inl NotBlockMultiple \<and>
   decrypt_data shift_cipher (replicate 32 7) (replicate 16 0) = Inl InvalidPaddingBytes \<and>
   16 \<le> length (replicate 16 (0 :: byte)) \<and> length (drop 16 (replicate 16 (0 :: byte))) mod 16 = 0"
proof -
  have "decrypt_data shift_cipher (replicate 32 7) (replicate 16 0) = Inl InvalidPaddingBytes"
    by (simp add: decrypt_data_def cbc_decrypt_def leftover_def blocks.simps pkcs7_unpad_def)
  then show ?thesis
    using decrypt_data_malformed [of "[1, 2, 3]" shift_cipher "replicate 32 7"]
      decrypt_data_malformed [of "replicate 16 0 @ [1, 2, 3]" shift_cipher "replicate 32 7"]
      decrypt_data_malformed [of "replicate 16 0" shift_cipher "replicate 32 7"]
    by simp
qed

text \<open>
  The claim as it was stated fails: the failure on a blob of three bytes and the failure
  on invalid padding (sixteen bytes, so no ciphertext block at all) are exceptions of one
  and the same class, \<^verbatim>\<open>ValueError\<close>, under any 32-byte key.
\<close>

theorem decrypt_data_malformed_counterexample:
  "decrypt_data shift_cipher (replicate 32 7) [1, 2, 3] = Inl (InvalidIVSize 3) \<and>
   decrypt_data shift_cipher (replicate 32 7) (replicate 16 0) = Inl InvalidPaddingBytes \<and>
   exception_class (InvalidIVSize 3) = exception_class InvalidPaddingBytes"
  by (simp add: decrypt_data_def cbc_decrypt_def leftover_def blocks.simps pkcs7_unpad_def)

subsection \<open>Key derivation\<close>

text \<open>
  C3. The key is a function of the passphrase alone: both constructors give the same
  result for every passphrase, the empty one included. For a passphrase that UTF-8 can
  encode this result is the key derived by PBKDF2-HMAC with SHA-256 from the encoded
  passphrase, the salt \<^verbatim>\<open>Git-Backup-Enc-Salt-v1\<close> and 100000 iterations, of the 32 bytes
  requested.
\<close>

theorem key_derivation_deterministic:
  "BackupEncryptor PBKDF2HMAC password = BackupDecryptor PBKDF2HMAC password \<and>
   (encodable password \<longrightarrow>
      (\<exists>key_material. utf8_encode password = Inr key_material \<and>
         BackupEncryptor PBKDF2HMAC password =
           Inr (PBKDF2HMAC SHA256 32 (bytes_literal ''Git-Backup-Enc-Salt-v1'') 100000 key_material) \<and>
         (kdf_length_ok PBKDF2HMAC \<longrightarrow>
            length (PBKDF2HMAC SHA256 32 (bytes_literal ''Git-Backup-Enc-Salt-v1'') 100000 key_material) = 32)))"
proof (intro conjI impI)
  show "BackupEncryptor PBKDF2HMAC password = BackupDecryptor PBKDF2HMAC password"
    by (simp add: BackupEncryptor_def BackupDecryptor_def)
next
  assume "encodable password"
  then obtain key_material where k: "utf8_encode password = Inr key_material"
    using utf8_encode_total by blast
  then show "\<exists>key_material. utf8_encode password = Inr key_material \<and>
         BackupEncryptor PBKDF2HMAC password =
           Inr (PBKDF2HMAC SHA256 32 (bytes_literal ''Git-Backup-Enc-Salt-v1'') 100000 key_material) \<and>
         (kdf_length_ok PBKDF2HMAC \<longrightarrow>
            length (PBKDF2HMAC SHA256 32 (bytes_literal ''Git-Backup-Enc-Salt-v1'') 100000 key_material) = 32)"
    by (simp add: BackupEncryptor_def kdf_length_ok_def)
qed

theorem key_derivation_deterministic_witness:
  "encodable [] \<and> kdf_length_ok take_kdf \<and>
   BackupEncryptor take_kdf [] = BackupDecryptor take_kdf [] \<and>
   BackupEncryptor take_kdf [] =
     Inr (take_kdf SHA256 32 (bytes_literal ''Git-Backup-Enc-Salt-v1'') 100000 []) \<and>
   length (take_kdf SHA256 32 (bytes_literal ''Git-Backup-Enc-Salt-v1'') 100000 []) = 32"
proof -
  have e: "encodable []" by (simp add: encodable_def)
  show ?thesis
    using key_derivation_deterministic [of take_kdf "[]"] take_kdf_ok e by auto
qed

subsection \<open>Round trip of contents\<close>

text \<open>
  C1. For every passphrase and every byte string, the empty one included: when an
  encryptor and a decryptor are both constructed from the passphrase,
  \<^verbatim>\<open>decrypt_data(encrypt_data(C))\<close> is \<open>C\<close>, whatever bytes the random source gives.
\<close>

theorem decrypt_encrypt_roundtrip:
  assumes "BackupEncryptor PBKDF2HMAC password = Inr ekey"
    and "BackupDecryptor PBKDF2HMAC password = Inr dkey"
    and "block_cipher_ok aes ekey"
  shows "\<exists>blob. fst (encrypt_data aes ekey data src) = Inr blob \<and>
           decrypt_data aes dkey blob = Inr data"
proof -
  have k: "dkey = ekey"
    using assms(1,2) by (simp add: BackupEncryptor_def BackupDecryptor_def split: sum.splits)
  have "decrypt_data aes ekey
          (fst (urandom 16 src) @
           cbc_encrypt_blocks aes ekey (fst (urandom 16 src)) (blocks (pkcs7_pad data))) = Inr data"
    using assms(3) length_urandom by (rule decrypt_encrypt_blob)
  then show ?thesis by (simp add: encrypt_data_eq k)
qed

theorem decrypt_encrypt_roundtrip_witness:
  "BackupEncryptor take_kdf [112, 119] = Inr (take 32 ([112, 119] @ bytes_literal ''Git-Backup-Enc-Salt-v1'' @ replicate 32 0)) \<and>
   BackupDecryptor take_kdf [112, 119] = Inr (take 32 ([112, 119] @ bytes_literal ''Git-Backup-Enc-Salt-v1'' @ replicate 32 0)) \<and>
   block_cipher_ok shift_cipher (take 32 ([112, 119] @ bytes_literal ''Git-Backup-Enc-Salt-v1'' @ replicate 32 0)) \<and>
   (\<exists>blob. fst (encrypt_data shift_cipher
                  (take 32 ([112, 119] @ bytes_literal ''Git-Backup-Enc-Salt-v1'' @ replicate 32 0))
                  [] count_entropy) = Inr blob \<and>
           decrypt_data shift_cipher
             (take 32 ([112, 119] @ bytes_literal ''Git-Backup-Enc-Salt-v1'' @ replicate 32 0)) blob = Inr [])"
proof -
  let ?k = "take 32 ([112, 119] @ bytes_literal ''Git-Backup-Enc-Salt-v1'' @ replicate 32 0)"
  have e: "BackupEncryptor take_kdf [112, 119] = Inr ?k"
    by (simp add: BackupEncryptor_def utf8_encode_char_def take_kdf_def Let_def)
  have d: "BackupDecryptor take_kdf [112, 119] = Inr ?k"
    by (simp add: BackupDecryptor_def utf8_encode_char_def take_kdf_def Let_def)
  show ?thesis
    using decrypt_encrypt_roundtrip [OF e d shift_cipher_ok, of "[]" count_entropy] e d
      shift_cipher_ok [of ?k]
    by blast
qed


subsection \<open>Round trip of names\<close>

text \<open>
  C5. For every string that UTF-8 can encode (the empty string, strings with a slash,
  strings beyond ASCII and strings longer than one cipher block among them)
  \<^verbatim>\<open>decrypt_filename(encrypt_filename(S))\<close> is \<open>S\<close> under the same key. The encrypted
  name consists of letters, digits, \<^verbatim>\<open>-\<close> and \<^verbatim>\<open>_\<close> only: it is the URL-safe
  base64 text of the blob without its trailing \<^verbatim>\<open>=\<close> characters, and appending the
  number of \<^verbatim>\<open>=\<close> that \<^verbatim>\<open>decrypt_filename\<close> computes from the length gives that text
  back.
\<close>

theorem filename_roundtrip:
  assumes "block_cipher_ok aes key" and "encodable S"
  shows "\<exists>name. fst (encrypt_filename aes key S src) = Inr name \<and>
           (\<forall>c \<in> set name. urlsafe_char c) \<and>
           decrypt_filename aes key name = Inr S \<and>
           (\<exists>data blob. utf8_encode S = Inr data \<and>
              fst (encrypt_data aes key data src) = Inr blob \<and>
              ascii_decode (urlsafe_b64encode blob) =
                Inr (name @ replicate ((4 - length name mod 4) mod 4) 61))"
proof -
  obtain data where data: "utf8_encode S = Inr data"
    using assms(2) utf8_encode_total by blast
  define iv where "iv = fst (urandom 16 src)"
  define blob where "blob = iv @ cbc_encrypt_blocks aes key iv (blocks (pkcs7_pad data))"
  have enc: "encrypt_data aes key data src = (Inr blob, snd (urandom 16 src))"
    by (simp add: encrypt_data_eq blob_def iv_def)
  have dec: "decrypt_data aes key blob = Inr data"
    unfolding blob_def using assms(1) by (rule decrypt_encrypt_blob) (simp add: iv_def length_urandom)
  from name_codec [of blob] obtain name p where n0:
    "ascii_decode (urlsafe_b64encode blob) = Inr (name @ replicate p 61) \<and>
     rstrip (name @ replicate p 61) 61 = name \<and> (\<forall>c \<in> set name. urlsafe_char c) \<and>
     (4 - length name mod 4) mod 4 = p \<and>
     (\<exists>t. ascii_encode (name @ replicate p 61) = Inr t \<and> urlsafe_b64decode t = Inr blob)"
    by (elim exE) (rule that)
  then obtain t where n: "ascii_decode (urlsafe_b64encode blob) = Inr (name @ replicate p 61)"
    "rstrip (name @ replicate p 61) 61 = name" "\<forall>c \<in> set name. urlsafe_char c"
    "(4 - length name mod 4) mod 4 = p"
    "ascii_encode (name @ replicate p 61) = Inr t" "urlsafe_b64decode t = Inr blob"
    by blast
  have e: "fst (encrypt_filename aes key S src) = Inr name"
    by (simp add: encrypt_filename_def data enc n(1,2))
  have d: "decrypt_filename aes key name = Inr S"
    using utf8_roundtrip [OF data]
    by (simp add: decrypt_filename_def Let_def n(4,5,6) dec)
  have b: "\<exists>data blob. utf8_encode S = Inr data \<and>
              fst (encrypt_data aes key data src) = Inr blob \<and>
              ascii_decode (urlsafe_b64encode blob) =
                Inr (name @ replicate ((4 - length name mod 4) mod 4) 61)"
    apply (rule exI [where x = data])
    apply (rule exI [where x = blob])
    apply (simp add: data enc n(1,4))
    done
  show ?thesis
    apply (rule exI [where x = name])
    apply (intro conjI)
       apply (rule e)
      apply (rule n(3))
     apply (rule d)
    apply (rule b)
    done
qed

theorem filename_roundtrip_witness:
  "block_cipher_ok shift_cipher (replicate 32 1) \<and> encodable [97, 47, 233, 128512] \<and>
   (\<exists>name. fst (encrypt_filename shift_cipher (replicate 32 1) [97, 47, 233, 128512] count_entropy) = Inr name \<and>
           (\<forall>c \<in> set name. urlsafe_char c) \<and>
           decrypt_filename shift_cipher (replicate 32 1) name = Inr [97, 47, 233, 128512] \<and>
           (\<exists>data blob. utf8_encode [97, 47, 233, 128512] = Inr data \<and>
              fst (encrypt_data shift_cipher (replicate 32 1) data count_entropy) = Inr blob \<and>
              ascii_decode (urlsafe_b64encode blob) =
                Inr (name @ replicate ((4 - length name mod 4) mod 4) 61)))"
proof -
  have e: "encodable [97, 47, 233, 128512]" by (simp add: encodable_def)
  show ?thesis
    using filename_roundtrip [OF shift_cipher_ok e, of "replicate 32 1" count_entropy] e
      shift_cipher_ok [of "replicate 32 1"]
    by blast
qed


subsection \<open>Clearing, and the example directory\<close>

lemma top_closed_None: "top_closed t \<Longrightarrow> t [name] = None \<Longrightarrow> t (name # names) = None"
  unfolding top_closed_def by blast

lemma clear_backup_dir_other:
  assumes "top_closed t" and "name \<noteq> str_literal ''.git''"
  shows "clear_backup_dir t (name # names) = None"
proof (cases "t [name] = None")
  case True
  then have "t (name # names) = None" using assms(1) by (rule top_closed_None [rotated])
  with True show ?thesis by (simp add: clear_backup_dir_def)
next
  case False
  with assms(2) show ?thesis by (simp add: clear_backup_dir_def)
qed

lemma str_literal_neq: "str_literal ''stale'' \<noteq> str_literal ''.git''"
  by (simp add: str_literal_def)

lemma demo_backup_dir_closed: "top_closed demo_backup_dir"
  by (auto simp: top_closed_def demo_backup_dir_def split: if_splits)


subsection \<open>The runs of backup\<close>

text \<open>
  C10. With a password configured and an empty selection \<^verbatim>\<open>backup\<close> returns before
  \<^verbatim>\<open>init_repo\<close>, before the backup directory is cleared and before anything is written
  or committed: the tree of the backup directory is the one it was given, with the mapping
  of the previous run in it.
\<close>

theorem backup_empty_selection:
  assumes "load_config config_password BACKUP_PASSWORD = Inr password"
    and "BackupEncryptor PBKDF2HMAC password = Inr key"
  shows "backup PBKDF2HMAC git_backup json_dumps aes config_password BACKUP_PASSWORD source []
           backup_dir src = Inr backup_dir"
  using assms by (simp add: backup_def)

theorem backup_empty_selection_witness:
  "load_config (Some [112, 119]) None = Inr [112, 119] \<and>
   BackupEncryptor take_kdf [112, 119] =
     Inr (take_kdf SHA256 32 (bytes_literal ''Git-Backup-Enc-Salt-v1'') 100000 [112, 119]) \<and>
   backup take_kdf \<lparr>init_repo = (\<lambda>t. Map.empty), commit_and_push = (\<lambda>t. Map.empty)\<rparr>
     (\<lambda>m. []) shift_cipher (Some [112, 119]) None Map.empty [] demo_backup_dir count_entropy =
   Inr demo_backup_dir \<and>
   demo_backup_dir [str_literal ''stale''] = Some (File [2])"
proof -
  have c: "load_config (Some [112, 119]) None = Inr [112, 119]"
    by (simp add: load_config_def)
  have k: "BackupEncryptor take_kdf [112, 119] =
           Inr (take_kdf SHA256 32 (bytes_literal ''Git-Backup-Enc-Salt-v1'') 100000 [112, 119])"
    by (simp add: BackupEncryptor_def utf8_encode_char_def Let_def)
  have s: "demo_backup_dir [str_literal ''stale''] = Some (File [2])"
    using str_literal_neq by (simp add: demo_backup_dir_def)
  show ?thesis
    using backup_empty_selection [OF c k] c k s by simp
qed

text \<open>
  C9, as the code has it. A run with a password configured and a selection that is not
  empty clears the backup directory before it writes: \<^verbatim>\<open>backup\<close> hands to
  \<^verbatim>\<open>commit_and_push\<close> what the encryption loop and the saving of the mapping write
  into the cleared tree. Of a tree that is closed at the top, clearing leaves no entry
  outside \<^verbatim>\<open>.git\<close> and every entry under \<^verbatim>\<open>.git\<close> as it was, so the outcome of the
  run does not depend on what was outside \<^verbatim>\<open>.git\<close> before.
\<close>

theorem backup_clears_mirror:
  assumes "load_config config_password BACKUP_PASSWORD = Inr password"
    and "BackupEncryptor PBKDF2HMAC password = Inr key"
    and "matching_files \<noteq> []"
    and "top_closed (init_repo git_backup backup_dir)"
  shows "backup PBKDF2HMAC git_backup json_dumps aes config_password BACKUP_PASSWORD source
           matching_files backup_dir src =
           (case write_mirror json_dumps aes key source matching_files
                   (clear_backup_dir (init_repo git_backup backup_dir)) src of
              Inl e \<Rightarrow> Inl e
            | Inr mirror \<Rightarrow> Inr (commit_and_push git_backup mirror)) \<and>
         (\<forall>name names. name \<noteq> str_literal ''.git'' \<longrightarrow>
            clear_backup_dir (init_repo git_backup backup_dir) (name # names) = None) \<and>
         (\<forall>names. clear_backup_dir (init_repo git_backup backup_dir) (str_literal ''.git'' # names) =
            init_repo git_backup backup_dir (str_literal ''.git'' # names)) \<and>
         (\<forall>other. top_closed (init_repo git_backup other) \<and>
            init_repo git_backup other [] = init_repo git_backup backup_dir [] \<and>
            (\<forall>names. init_repo git_backup other (str_literal ''.git'' # names) =
                     init_repo git_backup backup_dir (str_literal ''.git'' # names)) \<longrightarrow>
            backup PBKDF2HMAC git_backup json_dumps aes config_password BACKUP_PASSWORD source
              matching_files other src =
            backup PBKDF2HMAC git_backup json_dumps aes config_password BACKUP_PASSWORD source
              matching_files backup_dir src)"
proof (intro conjI allI impI)
  show "backup PBKDF2HMAC git_backup json_dumps aes config_password BACKUP_PASSWORD source
           matching_files backup_dir src =
           (case write_mirror json_dumps aes key source matching_files
                   (clear_backup_dir (init_repo git_backup backup_dir)) src of
              Inl e \<Rightarrow> Inl e
            | Inr mirror \<Rightarrow> Inr (commit_and_push git_backup mirror))"
    using assms(1,2,3) by (simp add: backup_def backup_transform_def)
next
  fix name names assume n: "name \<noteq> str_literal ''.git''"
  show "clear_backup_dir (init_repo git_backup backup_dir) (name # names) = None"
    using assms(4) n by (rule clear_backup_dir_other)
next
  fix names
  show "clear_backup_dir (init_repo git_backup backup_dir) (str_literal ''.git'' # names) =
            init_repo git_backup backup_dir (str_literal ''.git'' # names)"
    by (simp add: clear_backup_dir_def)
next
  fix other
  assume o: "top_closed (init_repo git_backup other) \<and>
            init_repo git_backup other [] = init_repo git_backup backup_dir [] \<and>
            (\<forall>names. init_repo git_backup other (str_literal ''.git'' # names) =
                     init_repo git_backup backup_dir (str_literal ''.git'' # names))"
  let ?t = "init_repo git_backup backup_dir" and ?u = "init_repo git_backup other"
  have "clear_backup_dir ?u p = clear_backup_dir ?t p" for p
  proof (cases p)
    case Nil
    then show ?thesis using o by (simp add: clear_backup_dir_def)
  next
    case (Cons name names)
    show ?thesis
    proof (cases "name = str_literal ''.git''")
      case True
      then show ?thesis using o Cons by (simp add: clear_backup_dir_def)
    next
      case False
      then have "clear_backup_dir t (name # names) = None" if "top_closed t" for t
        using that by (intro clear_backup_dir_other)
      then show ?thesis using o assms(4) Cons by simp
    qed
  qed
  then have "clear_backup_dir ?u = clear_backup_dir ?t" by (simp add: fun_eq_iff)
  then show "backup PBKDF2HMAC git_backup json_dumps aes config_password BACKUP_PASSWORD source
              matching_files other src =
            backup PBKDF2HMAC git_backup json_dumps aes config_password BACKUP_PASSWORD source
              matching_files backup_dir src"
    using assms(1,2,3) by (simp add: backup_def backup_transform_def)
qed

theorem backup_clears_mirror_witness:
  "load_config (Some [112, 119]) None = Inr [112, 119] \<and>
   BackupEncryptor take_kdf [112, 119] =
     Inr (take_kdf SHA256 32 (bytes_literal ''Git-Backup-Enc-Salt-v1'') 100000 [112, 119]) \<and>
   [[[102 :: nat]]] \<noteq> [] \<and>
   top_closed (init_repo \<lparr>init_repo = (\<lambda>t. t), commit_and_push = (\<lambda>t. t)\<rparr> demo_backup_dir) \<and>
   backup take_kdf \<lparr>init_repo = (\<lambda>t. t), commit_and_push = (\<lambda>t. t)\<rparr> (\<lambda>m. []) shift_cipher
       (Some [112, 119]) None (\<lambda>p. if p = [[102]] then Some (File [1]) else None) [[[102]]]
       demo_backup_dir count_entropy =
     write_mirror (\<lambda>m. []) shift_cipher
       (take_kdf SHA256 32 (bytes_literal ''Git-Backup-Enc-Salt-v1'') 100000 [112, 119])
       (\<lambda>p. if p = [[102]] then Some (File [1]) else None) [[[102]]]
       (clear_backup_dir demo_backup_dir) count_entropy \<and>
   demo_backup_dir [str_literal ''stale''] = Some (File [2]) \<and>
   clear_backup_dir demo_backup_dir [str_literal ''stale''] = None \<and>
   clear_backup_dir demo_backup_dir [str_literal ''.git'', str_literal ''HEAD''] = Some (File [1])"
proof -
  let ?git = "\<lparr>init_repo = (\<lambda>t :: tree. t), commit_and_push = (\<lambda>t :: tree. t)\<rparr>"
  have c: "load_config (Some [112, 119]) None = Inr [112, 119]"
    by (simp add: load_config_def)
  have k: "BackupEncryptor take_kdf [112, 119] =
           Inr (take_kdf SHA256 32 (bytes_literal ''Git-Backup-Enc-Salt-v1'') 100000 [112, 119])"
    by (simp add: BackupEncryptor_def utf8_encode_char_def Let_def)
  have n: "[[[102 :: nat]]] \<noteq> []" by simp
  have t: "top_closed (init_repo ?git demo_backup_dir)"
    using demo_backup_dir_closed by simp
  have s: "demo_backup_dir [str_literal ''stale''] = Some (File [2])"
    using str_literal_neq by (simp add: demo_backup_dir_def)
  have h: "demo_backup_dir [str_literal ''.git'', str_literal ''HEAD''] = Some (File [1])"
    by (simp add: demo_backup_dir_def)
  show ?thesis
    using backup_clears_mirror [OF c k n t, of "\<lambda>m. []" shift_cipher
        "\<lambda>p. if p = [[102]] then Some (File [1]) else None" count_entropy]
      c k t s h str_literal_neq
    by (simp split: sum.splits)
qed

text \<open>
  The claim as it was stated, with its rebuilding on every run, fails at a run whose
  selection is empty: it returns the backup directory as it was, the stale entry included.
\<close>

theorem backup_clears_mirror_counterexample:
  "backup take_kdf \<lparr>init_repo = (\<lambda>t. t), commit_and_push = (\<lambda>t. t)\<rparr> (\<lambda>m. []) shift_cipher
     (Some [112, 119]) None Map.empty [] demo_backup_dir count_entropy = Inr demo_backup_dir \<and>
   demo_backup_dir [str_literal ''stale''] = Some (File [2])"
  using str_literal_neq
  by (simp add: backup_def load_config_def BackupEncryptor_def utf8_encode_char_def Let_def
      demo_backup_dir_def)


subsection \<open>Restoring from a backup directory with files missing\<close>

lemma demo_blob_plain: "decrypt_data shift_cipher demo_key (demo_blob data) = Inr data"
  unfolding demo_blob_def by (rule decrypt_encrypt_blob [OF shift_cipher_ok]) simp

lemma demo_decryptor: "BackupDecryptor take_kdf [112, 119] = Inr demo_key"
  by (simp add: BackupDecryptor_def demo_key_def Let_def utf8_encode_char_def)

lemma demo_parse: "parse_path [97] = [[97]]" "parse_path [98] = [[98]]"
  "parse_path [121] = [[121]]" "parse_path [100, 47, 120] = [[100], [120]]"
  by (simp_all add: parse_path_def)

lemma demo_plain: "plain [97]" "plain [98]" "plain [121]" "plain [100, 47, 120]"
  by (simp_all add: plain_def demo_parse encodable_def)

lemma demo_names: "str_literal ''mapping.enc'' \<noteq> [46, 46]" "[97] \<noteq> str_literal ''mapping.enc''"
  "[98] \<noteq> str_literal ''mapping.enc''"
  by (simp_all add: str_literal_def)

lemma demo_mapping_file:
  "open_rb demo_fs ([[98]] @ [str_literal ''mapping.enc'']) = Inr (demo_blob (map of_nat demo_json))"
  using demo_names by (simp add: open_rb_def is_dir_def demo_fs_def)

lemma demo_text: "utf8_decode (map of_nat demo_json) = Inr demo_json"
  by (simp add: demo_json_def)

lemma demo_present: "present demo_fs [[98]] ([97], [100, 47, 120])"
  "\<not> present demo_fs [[98]] ([98], [121])"
  using demo_names
  by (simp_all add: present_def joinpath_def demo_parse path_exists_def is_dir_def demo_fs_def)

lemma demo_plaintext:
  "plaintext_of shift_cipher demo_key demo_fs [[98]] ([97], [100, 47, 120]) = Inr [7]"
  using demo_names
  by (simp add: plaintext_of_def joinpath_def demo_parse open_rb_def is_dir_def demo_fs_def
      demo_blob_plain)

lemma demo_target: "target [[114]] ([97], [100, 47, 120]) = [[114], [100], [120]]"
  by (simp add: target_def joinpath_def demo_parse)

lemma demo_can_put: "can_put (add_dirs demo_fs [[114]]) [[114], [100], [120]]"
  by (auto simp: can_put_def add_dirs_def demo_fs_def strict_prefix_def prefix_Cons)

text \<open>
  C8. \<^verbatim>\<open>restore\<close> is run on a file system in which the backup directory and the restore
  directory lie apart, with a password that \<^verbatim>\<open>load_config\<close> accepts, and its mapping
  has been read. The texts of the mapping are plain, so that every encrypted path lies in
  the backup directory and every original path in the restore directory. Every item
  whose encrypted path does not exist is skipped with a warning and the loop goes on. If
  the items present decrypt and their places in the restore directory can be written,
  \<^verbatim>\<open>restore\<close> completes: the reported count is the number of items present, the warnings
  name the items skipped in their order, and each item present has its place filled with
  the plaintext of an item of that place. With at least one item missing, the count is
  less than the number of items.
\<close>

theorem restore_skips_missing:
  assumes "load_config config_password BACKUP_PASSWORD = Inr password"
    and "BackupDecryptor PBKDF2HMAC password = Inr key"
    and "resolved backup_path" and "resolved restore_path"
    and "\<not> prefix backup_path restore_path" and "\<not> prefix restore_path backup_path"
    and "\<forall>q. q \<noteq> [] \<and> prefix q restore_path \<longrightarrow> (\<forall>old. fs q \<noteq> Some (File old))"
    and "open_rb fs (backup_path @ [str_literal ''mapping.enc'']) = Inr encrypted_mapping"
    and "decrypt_data aes key encrypted_mapping = Inr data"
    and "utf8_decode data = Inr mapping_json"
    and "json_loads mapping_json = Inr mapping"
    and "distinct (map fst mapping)"
    and "\<forall>item \<in> set mapping. plain (fst item) \<and> plain (snd item)"
    and "\<forall>item \<in> set mapping. present fs backup_path item \<longrightarrow>
           (\<exists>plaintext. plaintext_of aes key fs backup_path item = Inr plaintext)"
    and "\<forall>item \<in> set mapping. present fs backup_path item \<longrightarrow>
           can_put (add_dirs fs restore_path) (target restore_path item)"
    and "\<forall>item \<in> set mapping. \<forall>item' \<in> set mapping.
           present fs backup_path item \<and> present fs backup_path item' \<longrightarrow>
           \<not> strict_prefix (target restore_path item) (target restore_path item')"
    and "\<exists>item \<in> set mapping. \<not> present fs backup_path item"
  shows "\<exists>restored_count restored warnings.
           restore PBKDF2HMAC json_loads aes config_password BACKUP_PASSWORD fs backup_path
               restore_path =
             (Inr restored_count, restored, warnings) \<and>
           restored_count = length (filter (present fs backup_path) mapping) \<and>
           restored_count < length mapping \<and>
           warnings = map fst (filter (\<lambda>item. \<not> present fs backup_path item) mapping) \<and>
           (\<forall>item \<in> set mapping. present fs backup_path item \<longrightarrow>
              (\<exists>item' \<in> set mapping. \<exists>plaintext. present fs backup_path item' \<and>
                 target restore_path item' = target restore_path item \<and>
                 plaintext_of aes key fs backup_path item' = Inr plaintext \<and>
                 restored (target restore_path item) = Some (File plaintext)))"
proof -
  let ?m = "backup_path @ [str_literal ''mapping.enc'']"
  have dd: "[46, 46] \<notin> set backup_path" "[46, 46] \<notin> set restore_path"
    using assms(3,4) by (auto simp: resolved_def)
  have dm: "[46, 46] \<notin> set ?m" using dd(1) by (simp add: str_literal_def)
  from assms(8) have m: "\<forall>q. strict_prefix q ?m \<longrightarrow> is_dir fs q" "fs ?m \<noteq> None"
    by (auto simp: open_rb_iff [OF dm])
  have ex: "path_exists fs ?m" using m by (simp add: path_exists_iff [OF dm])
  have bpd: "\<forall>q. q \<noteq> [] \<and> strict_prefix q backup_path \<longrightarrow> fs q \<noteq> None"
  proof (intro allI impI)
    fix q assume q: "q \<noteq> [] \<and> strict_prefix q backup_path"
    then have "strict_prefix q ?m" by (auto simp: strict_prefix_def)
    then have "is_dir fs q" using m(1) by simp
    then show "fs q \<noteq> None" using q by (simp add: is_dir_def)
  qed
  define fs1 where "fs1 = add_dirs fs restore_path"
  have "path_mkdir_rev fs (rev restore_path) = (None, add_dirs fs (rev (rev restore_path)))"
    by (rule path_mkdir_rev_result) (use dd(2) assms(7) in simp_all)
  then have mk: "path_mkdir fs restore_path = (None, fs1)"
    by (simp add: path_mkdir_def fs1_def)
  have frame: "\<forall>q ks. prefix q (backup_path @ ks) \<longrightarrow> fs1 q = fs q"
  proof (intro allI impI)
    fix q ks assume "prefix q (backup_path @ ks)"
    with assms(5,6) bpd show "fs1 q = fs q" unfolding fs1_def by (rule add_dirs_backup)
  qed
  have rpd: "\<forall>q. q \<noteq> [] \<and> prefix q restore_path \<longrightarrow> fs1 q = Some Dir"
  proof (intro allI impI)
    fix q assume q: "q \<noteq> [] \<and> prefix q restore_path"
    then have "\<forall>old. fs q \<noteq> Some (File old)" using assms(7) by simp
    then show "fs1 q = Some Dir" using q
      by (cases "fs q") (auto simp: fs1_def add_dirs_def dest: not_File_Dir)
  qed
  have pr: "\<forall>item \<in> set mapping. present fs1 backup_path item = present fs backup_path item \<and>
              plaintext_of aes key fs1 backup_path item = plaintext_of aes key fs backup_path item"
  proof
    fix item assume "item \<in> set mapping"
    then have "plain (fst item)" using assms(13) by simp
    with dd(1) show "present fs1 backup_path item = present fs backup_path item \<and>
        plaintext_of aes key fs1 backup_path item = plaintext_of aes key fs backup_path item"
      using frame by (rule backup_lookups)
  qed
  have cp: "\<forall>item \<in> set mapping. present fs backup_path item \<longrightarrow>
              can_put fs1 (target restore_path item)"
    using assms(15) by (simp add: fs1_def)
  have "\<exists>fs'. restore_files aes key backup_path restore_path mapping fs1 0 [] =
           (Inr (0 + length (filter (present fs backup_path) mapping)), fs',
            [] @ map fst (filter (\<lambda>item. \<not> present fs backup_path item) mapping)) \<and>
         (\<forall>q. (\<forall>item \<in> set mapping. present fs backup_path item \<longrightarrow>
                 target restore_path item \<noteq> q \<and> \<not> strict_prefix q (target restore_path item)) \<longrightarrow>
               fs' q = fs1 q) \<and>
         (\<forall>item \<in> set mapping. present fs backup_path item \<longrightarrow>
            (\<exists>item' \<in> set mapping. \<exists>plaintext. present fs backup_path item' \<and>
               target restore_path item' = target restore_path item \<and>
               plaintext_of aes key fs backup_path item' = Inr plaintext \<and>
               fs' (target restore_path item) = Some (File plaintext)))"
    using dd assms(5,6) rpd assms(13) pr assms(14) cp assms(16) by (rule restore_files_spec)
  then obtain restored where r:
    "restore_files aes key backup_path restore_path mapping fs1 0 [] =
       (Inr (0 + length (filter (present fs backup_path) mapping)), restored,
        [] @ map fst (filter (\<lambda>item. \<not> present fs backup_path item) mapping))"
    "\<forall>item \<in> set mapping. present fs backup_path item \<longrightarrow>
       (\<exists>item' \<in> set mapping. \<exists>plaintext. present fs backup_path item' \<and>
          target restore_path item' = target restore_path item \<and>
          plaintext_of aes key fs backup_path item' = Inr plaintext \<and>
          restored (target restore_path item) = Some (File plaintext))"
    by (elim exE conjE)
  have run: "restore PBKDF2HMAC json_loads aes config_password BACKUP_PASSWORD fs backup_path
               restore_path =
          (Inr (length (filter (present fs backup_path) mapping)), restored,
           map fst (filter (\<lambda>item. \<not> present fs backup_path item) mapping))"
    using ex r(1) mk by (simp add: restore_def assms(1,2,8-11))
  obtain item where "item \<in> set mapping" "\<not> present fs backup_path item"
    using assms(17) by blast
  then have less: "length (filter (present fs backup_path) mapping) < length mapping"
    by (rule length_filter_less)
  show ?thesis
    apply (rule exI [where x = "length (filter (present fs backup_path) mapping)"])
    apply (rule exI [where x = restored])
    apply (rule exI [where x = "map fst (filter (\<lambda>item. \<not> present fs backup_path item) mapping)"])
    apply (intro conjI)
        apply (rule run)
       apply (rule refl)
      apply (rule less)
     apply (rule refl)
    apply (rule r(2))
    done
qed

theorem restore_skips_missing_witness:
  "load_config (Some [112, 119]) None = Inr [112, 119] \<and>
   BackupDecryptor take_kdf [112, 119] = Inr demo_key \<and>
   resolved [[98]] \<and> resolved [[114]] \<and>
   open_rb demo_fs ([[98]] @ [str_literal ''mapping.enc'']) =
     Inr (demo_blob (map of_nat demo_json)) \<and>
   decrypt_data shift_cipher demo_key (demo_blob (map of_nat demo_json)) = Inr (map of_nat demo_json) \<and>
   utf8_decode (map of_nat demo_json) = Inr demo_json \<and>
   demo_json_loads demo_json = Inr demo_mapping \<and>
   plain [97] \<and> plain [100, 47, 120] \<and> plain [98] \<and> plain [121] \<and>
   present demo_fs [[98]] ([97], [100, 47, 120]) \<and> \<not> present demo_fs [[98]] ([98], [121]) \<and>
   plaintext_of shift_cipher demo_key demo_fs [[98]] ([97], [100, 47, 120]) = Inr [7] \<and>
   can_put (add_dirs demo_fs [[114]]) (target [[114]] ([97], [100, 47, 120])) \<and>
   (\<exists>restored.
      restore take_kdf demo_json_loads shift_cipher (Some [112, 119]) None demo_fs [[98]] [[114]] =
        (Inr 1, restored, [[98]]) \<and>
      restored [[114], [100], [120]] = Some (File [7]))"
proof -
  have lc: "load_config (Some [112, 119]) None = Inr [112, 119]" by (simp add: load_config_def)
  have rb: "resolved [[98]]" and rr: "resolved [[114]]" by (simp_all add: resolved_def encodable_def)
  have ap: "\<not> prefix [[98 :: nat]] [[114]]" "\<not> prefix [[114 :: nat]] [[98]]" by simp_all
  have nf: "\<forall>q. q \<noteq> [] \<and> prefix q [[114]] \<longrightarrow> (\<forall>old. demo_fs q \<noteq> Some (File old))"
    by (auto simp: prefix_Cons demo_fs_def)
  have j: "demo_json_loads demo_json = Inr demo_mapping" by (simp add: demo_json_loads_def)
  have di: "distinct (map fst demo_mapping)" by (simp add: demo_mapping_def)
  have pl: "\<forall>item \<in> set demo_mapping. plain (fst item) \<and> plain (snd item)"
    using demo_plain by (simp add: demo_mapping_def)
  have a: "\<forall>item \<in> set demo_mapping. present demo_fs [[98]] item \<longrightarrow>
           (\<exists>plaintext. plaintext_of shift_cipher demo_key demo_fs [[98]] item = Inr plaintext)"
    using demo_present demo_plaintext by (simp add: demo_mapping_def)
  have b: "\<forall>item \<in> set demo_mapping. present demo_fs [[98]] item \<longrightarrow>
           can_put (add_dirs demo_fs [[114]]) (target [[114]] item)"
    using demo_present demo_can_put by (simp add: demo_mapping_def demo_target)
  have c: "\<forall>item \<in> set demo_mapping. \<forall>item' \<in> set demo_mapping.
           present demo_fs [[98]] item \<and> present demo_fs [[98]] item' \<longrightarrow>
           \<not> strict_prefix (target [[114]] item) (target [[114]] item')"
    using demo_present by (simp add: demo_mapping_def demo_target)
  have m: "\<exists>item \<in> set demo_mapping. \<not> present demo_fs [[98]] item"
    using demo_present by (simp add: demo_mapping_def)
  from restore_skips_missing [where json_loads = demo_json_loads and mapping_json = demo_json,
      OF lc demo_decryptor rb rr ap nf demo_mapping_file
      demo_blob_plain [of "map of_nat demo_json"]
      demo_text j di pl a b c m]
  obtain restored_count restored warnings where r:
    "restore take_kdf demo_json_loads shift_cipher (Some [112, 119]) None demo_fs [[98]] [[114]] =
       (Inr restored_count, restored, warnings)"
    "restored_count = length (filter (present demo_fs [[98]]) demo_mapping)"
    "warnings = map fst (filter (\<lambda>item. \<not> present demo_fs [[98]] item) demo_mapping)"
    "\<forall>item \<in> set demo_mapping. present demo_fs [[98]] item \<longrightarrow>
       (\<exists>item' \<in> set demo_mapping. \<exists>plaintext. present demo_fs [[98]] item' \<and>
          target [[114]] item' = target [[114]] item \<and>
          plaintext_of shift_cipher demo_key demo_fs [[98]] item' = Inr plaintext \<and>
          restored (target [[114]] item) = Some (File plaintext))"
    by blast
  have n: "restored_count = 1" "warnings = [[98]]"
    using r(2,3) demo_present by (simp_all add: demo_mapping_def)
  have "restored (target [[114]] ([97], [100, 47, 120])) = Some (File [7])"
    using r(4) demo_present demo_plaintext by (auto simp: demo_mapping_def)
  then have "restored [[114], [100], [120]] = Some (File [7])" by (simp add: demo_target)
  with r(1) n lc demo_decryptor rb rr demo_mapping_file demo_blob_plain demo_text j demo_plain
    demo_present demo_plaintext demo_can_put
  show ?thesis by (simp add: demo_target)
qed


subsection \<open>The tree that \<^verbatim>\<open>backup\<close> writes\<close>






lemma urlsafe_not_dot: "urlsafe_char c \<Longrightarrow> c \<noteq> 46 \<and> c \<noteq> 47"
  by (auto simp: urlsafe_char_def)









subsection \<open>The shape of the tree written by a run\<close>





end
